theory Spec2Isabelle
  imports Complex_Main "HOL-Library.AList" "HOL-Library.Product_Lexorder"
begin

section \<open>Coxeter matrices and their validation\<close>

text \<open>
  A Coxeter matrix is a table of integers, stored row by row. The label \<open>\<infinity>\<close> is
  stored as \<open>-1\<close>, as in \<^verbatim>\<open>coxeter_group.py\<close>.
\<close>

type_synonym cmatrix = "int list list"

datatype error =
    NotSymmetric      \<comment> \<open>ValueError: the Coxeter matrix is not symmetric\<close>
  | DiagonalNotOne    \<comment> \<open>ValueError: the Coxeter matrix diagonal is not all 1\<close>
  | InvalidLabel      \<comment> \<open>ValueError: invalid Coxeter label\<close>
  | InvalidGraphLabel \<comment> \<open>ValueError: invalid Coxeter graph label\<close>
  | NotAVertex        \<comment> \<open>ValueError of \<^verbatim>\<open>list.index\<close>\<close>

definition is_square :: "'a list list \<Rightarrow> bool" where
  "is_square M = list_all (\<lambda>row. length row = length M) M"

text \<open>\<^verbatim>\<open>data.is_symmetric()\<close>: a matrix that is not square is not symmetric.\<close>

definition is_symmetric :: "cmatrix \<Rightarrow> bool" where
  "is_symmetric M =
     (is_square M \<and>
      list_all (\<lambda>i. list_all (\<lambda>j. M ! i ! j = M ! j ! i) [0..<length M]) [0..<length M])"

text \<open>\<^verbatim>\<open>data.diagonal()\<close>\<close>

definition diagonal :: "cmatrix \<Rightarrow> int list" where
  "diagonal M = map (\<lambda>i. M ! i ! i) [0..<length M]"

text \<open>
  The values visited by
  \<^verbatim>\<open>for i, row in enumerate(data.rows()) for val in row[i+1:]\<close>.
\<close>

definition upper_entries :: "cmatrix \<Rightarrow> int list" where
  "upper_entries M = concat (map (\<lambda>(i, row). drop (i + 1) row) (enumerate 0 M))"

text \<open>
  The last branch of \<^verbatim>\<open>__classcall_private__\<close>, for data that is a literal matrix:
  three checks in the order of the source, then the default index set \<open>range(n)\<close>.
\<close>

definition classcall_matrix :: "cmatrix \<Rightarrow> nat list option \<Rightarrow> error + (cmatrix \<times> nat list)" where
  "classcall_matrix data index_set =
     (if \<not> is_symmetric data then Inl NotSymmetric
      else if list_ex (\<lambda>d. d \<noteq> 1) (diagonal data) then Inl DiagonalNotOne
      else if list_ex (\<lambda>v. v \<le> 1 \<and> v \<noteq> -1) (upper_entries data) then Inl InvalidLabel
      else Inr (data, (case index_set of None \<Rightarrow> [0..<length data] | Some I \<Rightarrow> I)))"

text \<open>
  The data model's description of a Coxeter matrix: square, symmetric, 1 on the diagonal,
  every off-diagonal entry at least 2 or the sentinel \<open>-1\<close>.
\<close>

definition valid_coxeter :: "cmatrix \<Rightarrow> bool" where
  "valid_coxeter M =
     (is_square M \<and>
      list_all (\<lambda>i. list_all (\<lambda>j.
          M ! i ! j = M ! j ! i \<and>
          (if i = j then M ! i ! j = 1 else M ! i ! j = -1 \<or> 2 \<le> M ! i ! j))
        [0..<length M]) [0..<length M])"

section \<open>The reflection representation\<close>

text \<open>
  The coefficient domain is taken to be the real numbers, where both branches of the
  source's \<^verbatim>\<open>val\<close> (the sum of a root of unity and its inverse in the universal
  cyclotomic field, and \<^verbatim>\<open>base_ring(2*cos(pi / x))\<close> elsewhere) denote the number
  \<open>2 cos(\<pi>/x)\<close>. The source divides by \<open>x\<close>; a validated Coxeter matrix has no entry 0.
\<close>

type_synonym rmatrix = "real list list"

definition val :: "int \<Rightarrow> real" where
  "val x = (if x \<noteq> -1 then 2 * cos (pi / real_of_int x) else 2)"

text \<open>\<^verbatim>\<open>MS.one()\<close> for the space of \<open>n \<times> n\<close> matrices.\<close>

definition one_mat :: "nat \<Rightarrow> rmatrix" where
  "one_mat n = map (\<lambda>r. map (\<lambda>c. if r = c then 1 else 0) [0..<n]) [0..<n]"

text \<open>
  \<^verbatim>\<open>MC(MS, entries=d)\<close>: the \<open>n \<times> n\<close> matrix holding \<open>d[(r, c)]\<close> at every key of the
  dictionary \<open>d\<close> and zero elsewhere.
\<close>

definition sparse_mat :: "nat \<Rightarrow> (nat \<times> nat \<rightharpoonup> real) \<Rightarrow> rmatrix" where
  "sparse_mat n d =
     map (\<lambda>r. map (\<lambda>c. case d (r, c) of None \<Rightarrow> 0 | Some v \<Rightarrow> v) [0..<n]) [0..<n]"

definition mat_add :: "rmatrix \<Rightarrow> rmatrix \<Rightarrow> rmatrix" where
  "mat_add A B = map2 (map2 (+)) A B"

text \<open>The product of two \<open>n \<times> n\<close> matrices, as the matrix group multiplies its elements.\<close>

definition mat_mul :: "nat \<Rightarrow> rmatrix \<Rightarrow> rmatrix \<Rightarrow> rmatrix" where
  "mat_mul n A B =
     map (\<lambda>r. map (\<lambda>c. sum_list (map (\<lambda>k. A ! r ! k * B ! k ! c) [0..<n])) [0..<n]) [0..<n]"

text \<open>
  The dictionary \<^verbatim>\<open>{(i, j): val(coxeter_matrix[i, j]) for j in range(n)}\<close> of the
  \<open>i\<close>-th generator.
\<close>

definition gen_entries :: "cmatrix \<Rightarrow> nat \<Rightarrow> nat \<Rightarrow> (nat \<times> nat \<rightharpoonup> real)" where
  "gen_entries M n i = (\<lambda>(r, c). if r = i \<and> c < n then Some (val (M ! i ! c)) else None)"

definition gens :: "cmatrix \<Rightarrow> rmatrix list" where
  "gens M =
     (let n = length M
      in map (\<lambda>i. mat_add (one_mat n) (sparse_mat n (gen_entries M n i))) [0..<n])"

text \<open>
  The dictionary of the bilinear form:
  \<^verbatim>\<open>{(i, j): val(coxeter_matrix[i, j]) / base_ring(-2) for i in range(n) for j in range(n)
     if coxeter_matrix[i, j] != 2}\<close>.
\<close>

definition bilinear_entries :: "cmatrix \<Rightarrow> nat \<Rightarrow> (nat \<times> nat \<rightharpoonup> real)" where
  "bilinear_entries M n =
     (\<lambda>(r, c). if r < n \<and> c < n \<and> M ! r ! c \<noteq> 2 then Some (val (M ! r ! c) / (- 2)) else None)"

definition bilinear :: "cmatrix \<Rightarrow> rmatrix" where
  "bilinear M = (let n = length M in sparse_mat n (bilinear_entries M n))"

text \<open>
  The generator that the specification text describes: the identity plus a matrix whose
  only nonzero entries are in column \<open>i\<close>, holding \<open>val(M[j][i])\<close> at row \<open>j \<noteq> i\<close> and 0 at
  row \<open>i\<close>.
\<close>

definition column_gen :: "cmatrix \<Rightarrow> nat \<Rightarrow> rmatrix" where
  "column_gen M i =
     (let n = length M
      in map (\<lambda>r. map (\<lambda>c. (if r = c then 1 else 0) +
                            (if c = i \<and> r \<noteq> i then val (M ! r ! i) else 0)) [0..<n]) [0..<n])"

text \<open>
  The generator as the source builds it: the identity plus a matrix whose only nonzero
  entries are in row \<open>i\<close>, holding \<open>2 cos(\<pi>/M[i][c])\<close> at column \<open>c \<noteq> i\<close> (2 for the
  sentinel) and \<open>-2\<close> at column \<open>i\<close>.
\<close>

definition row_gen :: "cmatrix \<Rightarrow> nat \<Rightarrow> rmatrix" where
  "row_gen M i =
     (let n = length M
      in map (\<lambda>r. map (\<lambda>c. (if r = c then 1 else 0) +
                (if r = i
                 then (if c = i then - 2
                       else if M ! i ! c = - 1 then 2
                       else 2 * cos (pi / real_of_int (M ! i ! c)))
                 else 0)) [0..<n]) [0..<n])"

section \<open>Graphs on matrix indices\<close>

text \<open>
  Modelled from the spec: the generic graph data structure of the computer-algebra system
  (\<^verbatim>\<open>Graph\<close>, with \<^verbatim>\<open>connected_components\<close>, \<^verbatim>\<open>subgraph\<close>, \<^verbatim>\<open>eccentricity\<close>,
  \<^verbatim>\<open>diameter\<close>, \<^verbatim>\<open>shortest_path\<close> and \<^verbatim>\<open>is_tree\<close>) is an external service of the
  source files. A graph is a list of vertices with a symmetric adjacency test, and the
  operations have their usual graph-theoretic meaning, computed by breadth-first search.
\<close>

record ugraph =
  gverts :: "nat list"
  gadj :: "nat \<Rightarrow> nat \<Rightarrow> bool"

text \<open>
  Modelled from the spec: the layers of a breadth-first search, with the vertices already
  seen and the current front; at most \<open>k\<close> layers are produced.
\<close>

fun bfs_layers :: "ugraph \<Rightarrow> nat \<Rightarrow> nat list \<Rightarrow> nat list \<Rightarrow> nat list list" where
  "bfs_layers G 0 seen front = []"
| "bfs_layers G (Suc k) seen front =
     (if front = [] then []
      else (let nxt = filter (\<lambda>w. w \<notin> set seen \<and> list_ex (\<lambda>u. gadj G u w) front) (gverts G)
            in front # bfs_layers G k (seen @ nxt) nxt))"

definition layers_from :: "ugraph \<Rightarrow> nat \<Rightarrow> nat list list" where
  "layers_from G v = bfs_layers G (Suc (length (gverts G))) [v] [v]"

text \<open>
  Modelled from the spec: the vertices of the connected component of \<open>v\<close>, in the order of
  the vertex list.
\<close>

definition component_of :: "ugraph \<Rightarrow> nat \<Rightarrow> nat list" where
  "component_of G v = filter (\<lambda>w. w \<in> set (concat (layers_from G v))) (gverts G)"

fun cc_scan :: "ugraph \<Rightarrow> nat list \<Rightarrow> nat list \<Rightarrow> nat list list" where
  "cc_scan G [] seen = []"
| "cc_scan G (v # vs) seen =
     (if v \<in> set seen then cc_scan G vs seen
      else (let c = component_of G v in c # cc_scan G vs (seen @ c)))"

text \<open>
  Modelled from the spec: \<^verbatim>\<open>G.connected_components()\<close>, one vertex list per component,
  the largest component first.
\<close>

definition connected_components :: "ugraph \<Rightarrow> nat list list" where
  "connected_components G = sort_key (\<lambda>c. - int (length c)) (cc_scan G (gverts G) [])"

text \<open>Modelled from the spec: \<^verbatim>\<open>G.subgraph(comp)\<close>, the induced subgraph.\<close>

definition subgraph :: "ugraph \<Rightarrow> nat list \<Rightarrow> ugraph" where
  "subgraph G cmpt =
     \<lparr>gverts = filter (\<lambda>v. v \<in> set cmpt) (gverts G),
      gadj = (\<lambda>u v. u \<in> set cmpt \<and> v \<in> set cmpt \<and> gadj G u v)\<rparr>"

text \<open>
  Modelled from the spec: the eccentricity of a vertex of a connected graph, the greatest
  distance from it, which is the number of breadth-first layers after the first.
\<close>

definition eccentricity :: "ugraph \<Rightarrow> nat \<Rightarrow> nat" where
  "eccentricity G v = length (layers_from G v) - 1"

text \<open>Modelled from the spec: the diameter, the greatest eccentricity.\<close>

definition diameter :: "ugraph \<Rightarrow> nat" where
  "diameter G = fold max (map (eccentricity G) (gverts G)) 0"

definition num_edges :: "ugraph \<Rightarrow> nat" where
  "num_edges G =
     length (filter (\<lambda>(u, v). u \<le> v \<and> gadj G u v) (List.product (gverts G) (gverts G)))"

definition is_connected :: "ugraph \<Rightarrow> bool" where
  "is_connected G =
     (case gverts G of [] \<Rightarrow> True | v # _ \<Rightarrow> length (component_of G v) = length (gverts G))"

text \<open>
  Modelled from the spec: \<^verbatim>\<open>G.is_tree()\<close>, a nonempty connected graph with one edge
  fewer than vertices.
\<close>

definition is_tree :: "ugraph \<Rightarrow> bool" where
  "is_tree G = (gverts G \<noteq> [] \<and> is_connected G \<and> length (gverts G) = num_edges G + 1)"

fun layer_index :: "nat list list \<Rightarrow> nat \<Rightarrow> nat" where
  "layer_index [] w = 0"
| "layer_index (L # Ls) w = (if w \<in> set L then 0 else Suc (layer_index Ls w))"

fun walk :: "ugraph \<Rightarrow> (nat \<Rightarrow> nat) \<Rightarrow> nat \<Rightarrow> nat \<Rightarrow> nat list" where
  "walk G d 0 u = [u]"
| "walk G d (Suc k) u =
     (if d u = 0 then [u]
      else (case filter (\<lambda>w. gadj G u w \<and> Suc (d w) = d u) (gverts G) of
              [] \<Rightarrow> [u]
            | w # _ \<Rightarrow> u # walk G d k w))"

text \<open>
  Modelled from the spec: \<^verbatim>\<open>G.shortest_path(u, v)\<close> in a connected graph, walking from
  \<open>u\<close> through vertices ever closer to \<open>v\<close>.
\<close>

definition shortest_path :: "ugraph \<Rightarrow> nat \<Rightarrow> nat \<Rightarrow> nat list" where
  "shortest_path G u v = walk G (layer_index (layers_from G v)) (length (gverts G)) u"

section \<open>The finiteness test of the constructor\<close>

text \<open>
  The unlabelled Coxeter graph built in \<^verbatim>\<open>__init__\<close>: the adjacency matrix has a 1 at
  \<open>(i, j)\<close> when \<^verbatim>\<open>coxeter_matrix[i, j] not in [1, 2]\<close>.
\<close>

definition diagram_graph :: "cmatrix \<Rightarrow> ugraph" where
  "diagram_graph M =
     (let n = length M
      in \<lparr>gverts = [0..<n],
          gadj = (\<lambda>i j. i < n \<and> j < n \<and> M ! i ! j \<noteq> 1 \<and> M ! i ! j \<noteq> 2)\<rparr>)"

text \<open>
  \<^verbatim>\<open>[coxeter_matrix[comp[i], comp[j]] for j in range(l) for i in range(j)]\<close>
\<close>

definition mentries :: "cmatrix \<Rightarrow> nat list \<Rightarrow> int list" where
  "mentries M cmpt =
     concat (map (\<lambda>j. map (\<lambda>i. M ! (cmpt ! i) ! (cmpt ! j)) [0..<j]) [0..<length cmpt])"

text \<open>The list \<open>u\<close> of the six labels of a component of four vertices.\<close>

definition labels4 :: "cmatrix \<Rightarrow> nat list \<Rightarrow> int list" where
  "labels4 M cmpt =
     (let c0 = cmpt ! 0; c1 = cmpt ! 1; c2 = cmpt ! 2; c3 = cmpt ! 3
      in [M ! c0 ! c1, M ! c0 ! c2, M ! c0 ! c3, M ! c1 ! c2, M ! c1 ! c3, M ! c2 ! c3])"

text \<open>
  The body of the loop \<^verbatim>\<open>for comp in comps\<close>: \<open>True\<close> where the source says
  \<^verbatim>\<open>continue\<close>, \<open>False\<close> where it sets \<^verbatim>\<open>finite = False\<close> and breaks. Negative list
  indices of the source are written from the length.
\<close>

definition comp_finite :: "cmatrix \<Rightarrow> ugraph \<Rightarrow> nat list \<Rightarrow> bool" where
  "comp_finite M G cmpt =
     (let l = length cmpt in
      if l = 1 then True
      else if l = 2 then
        (let c0 = cmpt ! 0; c1 = cmpt ! 1 in M ! c0 ! c1 > 0)
      else if l = 3 then
        (let c0 = cmpt ! 0; c1 = cmpt ! 1; c2 = cmpt ! 2;
             s = sort [M ! c0 ! c1, M ! c0 ! c2, M ! c1 ! c2]
         in s ! 0 = 2 \<and> s ! 1 = 3 \<and> s ! 2 \<in> set [3, 4, 5])
      else if l = 4 then
        (let u = labels4 M cmpt; s = sort u in
         if take 5 s = [2, 2, 2, 3, 3] then
           (if s ! 5 = 3 then True
            else if s ! 5 \<in> set [4, 5] then
              (let u0 = u ! 0 + u ! 1 + u ! 2;
                   u1 = u ! 0 + u ! 3 + u ! 4;
                   u2 = u ! 1 + u ! 3 + u ! 5;
                   u3 = u ! 2 + u ! 4 + u ! 5;
                   ss = sort [u0, u1, u2, u3]
               in ss \<in> set [[7, 7, 9, 9], [7, 8, 8, 9], [7, 8, 9, 10]])
            else False)
         else False)
      else
        (let G0 = subgraph G cmpt;
             ms = sort (mentries M cmpt);
             k = length ms in
         if ms ! 0 < 0 then False
         else if ms ! (k - 1) > 3 then
           (if ms ! (k - 2) > 3 then False
            else if ms ! (k - 1) > 4 then False
            else if diameter G0 \<noteq> l - 1 then False
            else
              (let ecc = sort (map (\<lambda>v. (eccentricity G0 v, v)) (gverts G0));
                   left_end = snd (ecc ! (length ecc - 1));
                   right_end = snd (ecc ! (length ecc - 2));
                   sp = shortest_path G0 left_end right_end;
                   left_almost_end = sp ! 1;
                   right_almost_end = sp ! (length sp - 2)
               in M ! left_end ! left_almost_end = 4 \<or> M ! right_end ! right_almost_end = 4))
         else if \<not> is_tree G0 then False
         else
           (let ecc = sort (map (eccentricity G0) (gverts G0));
                e = length ecc in
            if ecc ! (e - 1) = l - 1 then True
            else if ecc ! (e - 3) = l - 2 then True
            else if l \<le> 8 \<and> ecc ! (e - 2) = l - 2 \<and> ecc ! (e - 5) = l - 3 then True
            else False)))"

text \<open>
  The pairwise labels of a list of vertices as the specification text speaks of them: one
  label of the Coxeter matrix for every unordered pair of vertices of the list.
\<close>

fun pairs_of :: "'a list \<Rightarrow> ('a \<times> 'a) list" where
  "pairs_of [] = []"
| "pairs_of (x # xs) = map (Pair x) xs @ pairs_of xs"

definition pair_labels :: "cmatrix \<Rightarrow> nat list \<Rightarrow> int list" where
  "pair_labels M vs = map (\<lambda>(a, b). M ! a ! b) (pairs_of vs)"

text \<open>
  The sum of the labels between a vertex of a component and the other vertices of the
  component, as the specification text describes the entries of the "path-sum" tuple.
\<close>

definition vertex_sum :: "cmatrix \<Rightarrow> nat list \<Rightarrow> nat \<Rightarrow> int" where
  "vertex_sum M cmpt v = sum_list (map (\<lambda>w. M ! v ! w) (filter (\<lambda>w. w \<noteq> v) cmpt))"

text \<open>The loop over the components, leaving at the first component that fails.\<close>

fun classify :: "cmatrix \<Rightarrow> ugraph \<Rightarrow> nat list list \<Rightarrow> bool" where
  "classify M G [] = True"
| "classify M G (cmpt # comps) = (if comp_finite M G cmpt then classify M G comps else False)"

text \<open>The value of \<^verbatim>\<open>finite\<close> when the loop is left.\<close>

definition is_finite :: "cmatrix \<Rightarrow> bool" where
  "is_finite M = (let G = diagram_graph M in classify M G (connected_components G))"

text \<open>The data that \<^verbatim>\<open>__init__\<close> computes from its arguments.\<close>

record 'a coxeter_group =
  cg_matrix :: cmatrix
  cg_index_set :: "'a list"
  cg_gens :: "rmatrix list"
  cg_bilinear :: rmatrix
  cg_finite :: bool

definition init :: "cmatrix \<Rightarrow> 'a list \<Rightarrow> 'a coxeter_group" where
  "init M I =
     \<lparr>cg_matrix = M, cg_index_set = I, cg_gens = gens M,
      cg_bilinear = bilinear M, cg_finite = is_finite M\<rparr>"

definition bilinear_form :: "'a coxeter_group \<Rightarrow> rmatrix" where
  "bilinear_form W = cg_bilinear W"

section \<open>Labelled graphs and the conversion between graph and matrix\<close>

text \<open>
  An edge label of a Coxeter graph as the source reads it from \<^verbatim>\<open>e[2]\<close>: \<^verbatim>\<open>None\<close>,
  \<^verbatim>\<open>infinity\<close> or an integer.
\<close>

datatype label = NoLabel | Infinity | Num int

text \<open>
  Modelled from the spec: the labelled \<^verbatim>\<open>Graph\<close> of the computer-algebra system, a
  vertex set and an edge set with optional labels, is an external service of the source
  files. The record keeps its vertices and edges without repetition; \<^verbatim>\<open>vertices()\<close> and
  \<^verbatim>\<open>edges()\<close> list them in increasing order, as the example
  \<^verbatim>\<open>Graph([(0,3,None), (1,3,15), (2,3,7), (0,1,3)])\<close> of the class documentation shows
  (its matrix has the rows of the vertices 0, 1, 2, 3 in this order).
\<close>

record 'a lgraph =
  lg_verts :: "'a list"
  lg_edges :: "('a \<times> 'a \<times> label) list"

text \<open>Modelled from the spec: \<^verbatim>\<open>Graph()\<close>, the empty graph.\<close>

definition empty_graph :: "'a lgraph" where
  "empty_graph = \<lparr>lg_verts = [], lg_edges = []\<rparr>"

text \<open>Modelled from the spec: \<^verbatim>\<open>G.add_vertices(vs)\<close>; a vertex already present is kept.\<close>

definition add_vertices :: "'a list \<Rightarrow> 'a lgraph \<Rightarrow> 'a lgraph" where
  "add_vertices vs G = G\<lparr>lg_verts := fold (\<lambda>v acc. if v \<in> set acc then acc else acc @ [v]) vs (lg_verts G)\<rparr>"

definition same_ends :: "'a \<Rightarrow> 'a \<Rightarrow> 'a \<times> 'a \<times> label \<Rightarrow> bool" where
  "same_ends u v e = ((fst e = u \<and> fst (snd e) = v) \<or> (fst e = v \<and> fst (snd e) = u))"

text \<open>
  Modelled from the spec: \<^verbatim>\<open>G.add_edge(u, v, l)\<close> on a graph without multiple edges:
  missing end points become vertices, and an edge already between \<open>u\<close> and \<open>v\<close> is replaced.
\<close>

definition add_edge :: "'a \<Rightarrow> 'a \<Rightarrow> label \<Rightarrow> 'a lgraph \<Rightarrow> 'a lgraph" where
  "add_edge u v l G =
     (let G' = add_vertices [u, v] G
      in G'\<lparr>lg_edges := filter (\<lambda>e. \<not> same_ends u v e) (lg_edges G') @ [(u, v, l)]\<rparr>)"

text \<open>Modelled from the spec: \<^verbatim>\<open>G.vertices()\<close>, the vertices in increasing order.\<close>

definition vertices :: "('a::linorder) lgraph \<Rightarrow> 'a list" where
  "vertices G = sort (lg_verts G)"

text \<open>
  Modelled from the spec: \<^verbatim>\<open>G.edges()\<close>, each edge with its smaller end point first,
  in increasing order of the end points.
\<close>

definition edges :: "('a::linorder) lgraph \<Rightarrow> ('a \<times> 'a \<times> label) list" where
  "edges G =
     sort_key (\<lambda>e. (fst e, fst (snd e)))
       (map (\<lambda>(u, v, l). (min u v, max u v, l)) (lg_edges G))"

text \<open>
  \<^verbatim>\<open>coxeter_graph()\<close>. The two nested loops visit, for every row \<open>i\<close>, the entries of
  \<^verbatim>\<open>row[i+1:]\<close> with their position \<open>j\<close>; \<open>upper_triples\<close> lists the visits in the
  order of the source, as the row, the position and the entry.
\<close>

definition upper_triples :: "cmatrix \<Rightarrow> (nat \<times> nat \<times> int) list" where
  "upper_triples M =
     concat (map (\<lambda>(i, row). map (\<lambda>(j, v). (i, j, v)) (enumerate 0 (drop (i + 1) row)))
                 (enumerate 0 M))"

definition graph_step :: "'a list \<Rightarrow> nat \<times> nat \<times> int \<Rightarrow> 'a lgraph \<Rightarrow> 'a lgraph" where
  "graph_step I = (\<lambda>(i, j, v) G.
     if v = 3 then add_edge (I ! i) (I ! (i + 1 + j)) NoLabel G
     else if v > 3 then add_edge (I ! i) (I ! (i + 1 + j)) (Num v) G
     else if v = -1 then add_edge (I ! i) (I ! (i + 1 + j)) Infinity G
     else G)"

definition coxeter_graph :: "'a coxeter_group \<Rightarrow> 'a lgraph" where
  "coxeter_graph W =
     fold (graph_step (cg_index_set W)) (upper_triples (cg_matrix W))
          (add_vertices (cg_index_set W) empty_graph)"

text \<open>
  The branch of \<^verbatim>\<open>__classcall_private__\<close> for data that is a graph. The label of an
  edge becomes a matrix entry or the error "invalid Coxeter graph label".
\<close>

fun graph_label :: "label \<Rightarrow> error + int" where
  "graph_label NoLabel = Inr 3"
| "graph_label Infinity = Inr (- 1)"
| "graph_label (Num m) =
     (if m = - 1 then Inr (- 1) else if m \<le> 1 then Inl InvalidGraphLabel else Inr m)"

text \<open>\<^verbatim>\<open>verts.index(x)\<close>, which raises when \<open>x\<close> is not in the list.\<close>

fun index_of :: "'a list \<Rightarrow> 'a \<Rightarrow> error + nat" where
  "index_of [] x = Inl NotAVertex"
| "index_of (y # ys) x =
     (if x = y then Inr 0
      else (case index_of ys x of Inl e \<Rightarrow> Inl e | Inr k \<Rightarrow> Inr (Suc k)))"

text \<open>The assignment \<^verbatim>\<open>data[i, j] = m\<close>.\<close>

definition set_entry :: "cmatrix \<Rightarrow> nat \<Rightarrow> nat \<Rightarrow> int \<Rightarrow> cmatrix" where
  "set_entry d i j m = d[i := (d ! i)[j := m]]"

text \<open>The matrix of 2s with 1 on the diagonal that the graph branch starts from.\<close>

definition base_matrix :: "nat \<Rightarrow> cmatrix" where
  "base_matrix n = fold (\<lambda>i d. set_entry d i i 1) [0..<n] (replicate n (replicate n 2))"

text \<open>The loop \<^verbatim>\<open>for e in G.edges()\<close>, stopping at the first error.\<close>

fun fill_edges :: "'a list \<Rightarrow> ('a \<times> 'a \<times> label) list \<Rightarrow> cmatrix \<Rightarrow> error + cmatrix" where
  "fill_edges verts [] data = Inr data"
| "fill_edges verts (e # es) data =
     (case graph_label (snd (snd e)) of
        Inl err \<Rightarrow> Inl err
      | Inr m \<Rightarrow>
          (case index_of verts (fst e) of
             Inl err \<Rightarrow> Inl err
           | Inr i \<Rightarrow>
               (case index_of verts (fst (snd e)) of
                  Inl err \<Rightarrow> Inl err
                | Inr j \<Rightarrow> fill_edges verts es (set_entry (set_entry data j i m) i j m))))"

definition classcall_graph ::
  "('a::linorder) lgraph \<Rightarrow> 'a list option \<Rightarrow> error + (cmatrix \<times> 'a list)" where
  "classcall_graph G index_set =
     (let n = length (vertices G);
          verts = vertices G
      in case fill_edges verts (edges G) (base_matrix n) of
           Inl err \<Rightarrow> Inl err
         | Inr data \<Rightarrow>
             Inr (data, (case index_set of None \<Rightarrow> vertices G | Some I \<Rightarrow> I)))"

section \<open>The digraph of a crystal\<close>

text \<open>
  A crystal is given by the list of its elements, its index set and the lowering operators
  \<open>f i\<close>, which return another element or \<open>None\<close>. The dictionary of dictionaries \<open>d\<close> of
  \<^verbatim>\<open>digraph()\<close> is an association list of association lists.
\<close>

type_synonym ('a, 'i) dict_of_dicts = "('a \<times> ('a \<times> 'i) list) list"

record ('a, 'i) digraph =
  dg_verts :: "'a list"
  dg_edges :: "('a \<times> 'a \<times> 'i) list"

text \<open>
  Modelled from the spec: \<^verbatim>\<open>DiGraph(d, format='dict_of_dicts')\<close> of the external graph
  library: the vertices are the keys of \<open>d\<close> and of its inner dictionaries, and there is
  one edge \<open>x \<rightarrow> y\<close> labelled \<open>d[x][y]\<close> for every key \<open>y\<close> of \<open>d[x]\<close>.
\<close>

definition digraph_of_dict :: "('a, 'i) dict_of_dicts \<Rightarrow> ('a, 'i) digraph" where
  "digraph_of_dict d =
     \<lparr>dg_verts = remdups (map fst d @ concat (map (\<lambda>(x, m). map fst m) d)),
      dg_edges = concat (map (\<lambda>(x, m). map (\<lambda>(y, l). (x, y, l)) m) d)\<rparr>"

text \<open>\<^verbatim>\<open>{x: {} for x in self}\<close>\<close>

definition init_dict :: "'a list \<Rightarrow> ('a, 'i) dict_of_dicts" where
  "init_dict xs = fold (\<lambda>x. AList.update x []) xs []"

text \<open>The body of the inner loop: \<^verbatim>\<open>y = x.f(i)\<close>, then \<^verbatim>\<open>d[x][y] = i\<close> unless \<open>y\<close> is \<^verbatim>\<open>None\<close>.\<close>

definition digraph_step ::
  "('i \<Rightarrow> 'a \<Rightarrow> 'a option) \<Rightarrow> 'i \<Rightarrow> 'a \<Rightarrow> ('a, 'i) dict_of_dicts \<Rightarrow> ('a, 'i) dict_of_dicts" where
  "digraph_step f i x d =
     (case f i x of None \<Rightarrow> d | Some y \<Rightarrow> AList.map_entry x (AList.update y i) d)"

definition digraph_dict ::
  "'a list \<Rightarrow> 'i list \<Rightarrow> ('i \<Rightarrow> 'a \<Rightarrow> 'a option) \<Rightarrow> ('a, 'i) dict_of_dicts" where
  "digraph_dict xs idx f =
     fold (\<lambda>i d. fold (digraph_step f i) (map fst d) d) idx (init_dict xs)"

definition digraph :: "'a list \<Rightarrow> 'i list \<Rightarrow> ('i \<Rightarrow> 'a \<Rightarrow> 'a option) \<Rightarrow> ('a, 'i) digraph" where
  "digraph xs idx f = digraph_of_dict (digraph_dict xs idx f)"

text \<open>
  The label that the dictionary ends with at \<open>d[x][y]\<close>, in the words of the loop: the
  last index \<open>i\<close> of the index set, in its order, with \<open>f i x = y\<close>, if there is one.
\<close>

definition last_label :: "('i \<Rightarrow> 'a \<Rightarrow> 'a option) \<Rightarrow> 'i list \<Rightarrow> 'a \<Rightarrow> 'a \<Rightarrow> 'i option" where
  "last_label f idx x y =
     (let js = filter (\<lambda>i. f i x = Some y) idx in if js = [] then None else Some (last js))"

text \<open>
  The invariant of the outer loop of \<^verbatim>\<open>digraph()\<close> after the indices \<open>seen\<close>: the keys of
  \<open>d\<close> are the elements, and \<open>d[x][y]\<close> is the last index seen that sends \<open>x\<close> to \<open>y\<close>.
\<close>

definition dict_inv ::
  "('i \<Rightarrow> 'a \<Rightarrow> 'a option) \<Rightarrow> 'a list \<Rightarrow> 'i list \<Rightarrow> ('a, 'i) dict_of_dicts \<Rightarrow> bool" where
  "dict_inv f xs seen d \<longleftrightarrow>
     distinct (map fst d) \<and> set (map fst d) = set xs \<and>
     (\<forall>x m. map_of d x = Some m \<longrightarrow>
        distinct (map fst m) \<and> (\<forall>y. map_of m y = last_label f seen x y))"

text \<open>
  A crystal with the elements 0 and 1 whose lowering operators all send 0 to 1, used with
  the index set \<open>[1, 2]\<close>: two indices with the same source and target.
\<close>

definition two_arrows :: "nat \<Rightarrow> nat \<Rightarrow> nat option" where
  "two_arrows i x = (if x = 0 then Some 1 else None)"

text \<open>
  The label that \<^verbatim>\<open>coxeter_graph()\<close> gives to the edge of a matrix entry, and \<open>None\<close> for
  an entry that gets no edge.
\<close>

definition edge_label :: "int \<Rightarrow> label option" where
  "edge_label v =
     (if v = 3 then Some NoLabel else if v > 3 then Some (Num v)
      else if v = - 1 then Some Infinity else None)"

text \<open>
  An edge that belongs to the Coxeter graph of \<open>M\<close> with index set \<open>I\<close>: it joins the labels
  of two positions \<open>i < k\<close> and carries the label of the entry \<open>M[i][k]\<close>.
\<close>

definition good_edge :: "cmatrix \<Rightarrow> 'a list \<Rightarrow> 'a \<times> 'a \<times> label \<Rightarrow> bool" where
  "good_edge M I e \<longleftrightarrow>
     (\<exists>i k. i < k \<and> k < length M \<and> fst e = I ! i \<and> fst (snd e) = I ! k \<and>
            edge_label (M ! i ! k) = Some (snd (snd e)))"

text \<open>Some edge of the graph joins \<open>u\<close> and \<open>v\<close>.\<close>

definition covered :: "'a lgraph \<Rightarrow> 'a \<Rightarrow> 'a \<Rightarrow> bool" where
  "covered G u v \<longleftrightarrow> (\<exists>e\<in>set (lg_edges G). same_ends u v e)"

text \<open>The invariant of the loops of \<^verbatim>\<open>coxeter_graph()\<close>.\<close>

definition graph_inv :: "cmatrix \<Rightarrow> 'a list \<Rightarrow> 'a lgraph \<Rightarrow> bool" where
  "graph_inv M I G \<longleftrightarrow> lg_verts G = I \<and> (\<forall>e\<in>set (lg_edges G). good_edge M I e)"

text \<open>A table of \<open>n\<close> rows of length \<open>n\<close>.\<close>

definition dims :: "nat \<Rightarrow> cmatrix \<Rightarrow> bool" where
  "dims n d \<longleftrightarrow> length d = n \<and> (\<forall>r<n. length (d ! r) = n)"

section \<open>Properties of the validation and of the reflection representation\<close>


lemma sq_nth: "is_square M \<Longrightarrow> i < length M \<Longrightarrow> length (M ! i) = length M"
  by (simp add: is_square_def list_all_iff)

lemma upper_entries_set:
  "set (upper_entries M) = {M ! i ! j | i j. i < length M \<and> i < j \<and> j < length (M ! i)}"
  (is "?L = ?R")
proof
  show "?L \<subseteq> ?R"
  proof
    fix v assume "v \<in> ?L"
    then obtain p where p: "p \<in> set (enumerate 0 M)" and v: "v \<in> set (drop (fst p + 1) (snd p))"
      by (auto simp: upper_entries_def)
    from p have i: "fst p < length M" and r: "snd p = M ! fst p"
      by (auto simp: in_set_enumerate_eq)
    from v obtain k where k: "k < length (snd p) - (fst p + 1)" and vk: "v = drop (fst p + 1) (snd p) ! k"
      by (auto simp: in_set_conv_nth)
    then have "v = M ! fst p ! (fst p + 1 + k)" using r by simp
    moreover have "fst p + 1 + k < length (M ! fst p)" using k r by simp
    ultimately show "v \<in> ?R" using i by force
  qed
  show "?R \<subseteq> ?L"
  proof
    fix v assume "v \<in> ?R"
    then obtain i j where i: "i < length M" and ij: "i < j" and j: "j < length (M ! i)" and v: "v = M ! i ! j"
      by blast
    have "(i, M ! i) \<in> set (enumerate 0 M)" using i by (simp add: in_set_enumerate_eq)
    moreover have "v \<in> set (drop (i + 1) (M ! i))"
    proof -
      have "drop (i + 1) (M ! i) ! (j - (i + 1)) = M ! i ! j" using ij j by simp
      moreover have "j - (i + 1) < length (drop (i + 1) (M ! i))" using ij j by simp
      ultimately show ?thesis using v by (metis nth_mem)
    qed
    ultimately show "v \<in> ?L" by (force simp: upper_entries_def)
  qed
qed

lemma is_symmetric_iff:
  "is_symmetric M \<longleftrightarrow> is_square M \<and> (\<forall>i<length M. \<forall>j<length M. M ! i ! j = M ! j ! i)"
  by (auto simp: is_symmetric_def list_all_iff)

lemma diagonal_bad_iff:
  "list_ex (\<lambda>d. d \<noteq> 1) (diagonal M) \<longleftrightarrow> (\<exists>i<length M. M ! i ! i \<noteq> 1)"
  by (auto simp: diagonal_def list_ex_iff)

lemma upper_bad_iff:
  assumes "is_symmetric M"
  shows "list_ex (\<lambda>v. v \<le> 1 \<and> v \<noteq> -1) (upper_entries M) \<longleftrightarrow>
         (\<exists>i<length M. \<exists>j<length M. i \<noteq> j \<and> M ! i ! j \<le> 1 \<and> M ! i ! j \<noteq> -1)"
    (is "?L \<longleftrightarrow> ?R")
proof
  from assms have sq: "is_square M" and sym: "\<And>i j. i < length M \<Longrightarrow> j < length M \<Longrightarrow> M ! i ! j = M ! j ! i"
    by (auto simp: is_symmetric_iff)
  {
    assume ?L
    then obtain i j where "i < length M" "i < j" "j < length (M ! i)" "M ! i ! j \<le> 1" "M ! i ! j \<noteq> -1"
      by (auto simp: list_ex_iff upper_entries_set)
    then show ?R using sq_nth[OF sq] by (metis nat_neq_iff)
  }
  {
    assume ?R
    then obtain i j where ij: "i < length M" "j < length M" "i \<noteq> j" "M ! i ! j \<le> 1" "M ! i ! j \<noteq> -1"
      by blast
    show ?L
    proof (cases "i < j")
      case True
      then have "i < length M \<and> i < j \<and> j < length (M ! i)"
        using ij sq_nth[OF sq] by simp
      then have "M ! i ! j \<in> set (upper_entries M)"
        unfolding upper_entries_set by blast
      then show ?thesis using ij by (auto simp: list_ex_iff)
    next
      case False
      then have "j < i" using ij by simp
      then have "j < length M \<and> j < i \<and> i < length (M ! j)"
        using ij sq_nth[OF sq] by simp
      then have "M ! j ! i \<in> set (upper_entries M)"
        unfolding upper_entries_set by blast
      moreover have "M ! j ! i = M ! i ! j" using sym ij by simp
      ultimately show ?thesis using ij by (auto simp: list_ex_iff)
    qed
  }
qed



lemma val_one: "val 1 = - 2"
  by (simp add: val_def)

lemma val_infinity: "val (- 1) = 2"
  by (simp add: val_def)

lemma val_two: "val 2 = 0"
  by (simp add: val_def)

lemma length_gens: "length (gens M) = length M"
  by (simp add: gens_def Let_def)

lemma gens_entry:
  assumes "i < length M" "r < length M" "c < length M"
  shows "gens M ! i ! r ! c = (if r = c then 1 else 0) + (if r = i then val (M ! i ! c) else 0)"
  using assms
  by (simp add: gens_def Let_def mat_add_def one_mat_def sparse_mat_def gen_entries_def)

lemma gens_dims:
  assumes "i < length M"
  shows "length (gens M ! i) = length M"
    and "r < length M \<Longrightarrow> length (gens M ! i ! r) = length M"
  using assms
  by (simp_all add: gens_def Let_def mat_add_def one_mat_def sparse_mat_def)

lemma bilinear_entry:
  assumes "r < length M" "c < length M"
  shows "bilinear M ! r ! c = (if M ! r ! c \<noteq> 2 then val (M ! r ! c) / (- 2) else 0)"
  using assms by (simp add: bilinear_def Let_def sparse_mat_def bilinear_entries_def)

lemma valid_square: "valid_coxeter M \<Longrightarrow> is_square M"
  by (simp add: valid_coxeter_def)

lemma valid_entry:
  assumes "valid_coxeter M" "i < length M" "j < length M"
  shows "M ! i ! j = M ! j ! i \<and>
         (if i = j then M ! i ! j = 1 else M ! i ! j = -1 \<or> 2 \<le> M ! i ! j)"
proof -
  from assms(1) have "\<forall>i\<in>set [0..<length M]. \<forall>j\<in>set [0..<length M].
      M ! i ! j = M ! j ! i \<and>
      (if i = j then M ! i ! j = 1 else M ! i ! j = -1 \<or> 2 \<le> M ! i ! j)"
    unfolding valid_coxeter_def list_all_iff by (rule conjunct2)
  moreover have "i \<in> set [0..<length M]" "j \<in> set [0..<length M]" using assms by simp_all
  ultimately show ?thesis by blast
qed

lemma valid_sym: "valid_coxeter M \<Longrightarrow> i < length M \<Longrightarrow> j < length M \<Longrightarrow> M ! i ! j = M ! j ! i"
  using valid_entry by blast

lemma valid_diag: "valid_coxeter M \<Longrightarrow> i < length M \<Longrightarrow> M ! i ! i = 1"
  using valid_entry[of M i i] by simp

lemma valid_off:
  "valid_coxeter M \<Longrightarrow> i < length M \<Longrightarrow> j < length M \<Longrightarrow> i \<noteq> j \<Longrightarrow> M ! i ! j = -1 \<or> 2 \<le> M ! i ! j"
  using valid_entry[of M i j] by auto

lemma valid_coxeterI:
  assumes "is_square M"
    and "\<And>i j. i < length M \<Longrightarrow> j < length M \<Longrightarrow> M ! i ! j = M ! j ! i"
    and "\<And>i. i < length M \<Longrightarrow> M ! i ! i = 1"
    and "\<And>i j. i < length M \<Longrightarrow> j < length M \<Longrightarrow> i \<noteq> j \<Longrightarrow> M ! i ! j = -1 \<or> 2 \<le> M ! i ! j"
  shows "valid_coxeter M"
  unfolding valid_coxeter_def list_all_iff
proof (intro conjI ballI)
  show "is_square M" by fact
next
  fix i j assume "i \<in> set [0..<length M]" "j \<in> set [0..<length M]"
  then have ij: "i < length M" "j < length M" by simp_all
  show "M ! i ! j = M ! j ! i" using assms(2) ij by blast
  show "if i = j then M ! i ! j = 1 else M ! i ! j = - 1 \<or> 2 \<le> M ! i ! j"
    using assms(3)[OF ij(1)] assms(4)[OF ij] by (cases "i = j") simp_all
qed

lemma mat_mul_entry:
  assumes "r < n" "c < n"
  shows "mat_mul n A B ! r ! c = (\<Sum>k<n. A ! r ! k * B ! k ! c)"
  using assms by (simp add: mat_mul_def interv_sum_list_conv_sum_set_nat atLeast0LessThan)

lemma gen_square_entry:
  assumes d: "M ! i ! i = 1" and i: "i < length M" and r: "r < length M" and c: "c < length M"
  shows "mat_mul (length M) (gens M ! i) (gens M ! i) ! r ! c = (if r = c then 1 else 0)"
proof -
  let ?n = "length M"
  let ?v = "\<lambda>k. val (M ! i ! k)"
  have vi: "?v i = - 2" using d by (simp add: val_one)
  have "mat_mul ?n (gens M ! i) (gens M ! i) ! r ! c
          = (\<Sum>k<?n. gens M ! i ! r ! k * gens M ! i ! k ! c)"
    using r c by (rule mat_mul_entry)
  also have "\<dots> = (\<Sum>k<?n. ((if r = k then 1 else 0) + (if r = i then ?v k else 0)) *
                          ((if k = c then 1 else 0) + (if k = i then ?v c else 0)))"
    using i r c by (intro sum.cong refl) (simp add: gens_entry)
  also have "\<dots> = (\<Sum>k<?n. (if k = r then (if k = c then 1 else 0) + (if k = i then ?v c else 0) else 0))
                   + (\<Sum>k<?n. (if k = c then (if r = i then ?v k else 0) else 0))
                   + (\<Sum>k<?n. (if k = i then (if r = i then ?v k * ?v c else 0) else 0))"
    unfolding sum.distrib[symmetric] by (intro sum.cong refl) (auto simp: algebra_simps)
  also have "\<dots> = ((if r = c then 1 else 0) + (if r = i then ?v c else 0))
                   + (if r = i then ?v c else 0)
                   + (if r = i then ?v i * ?v c else 0)"
    using i r c by (simp add: sum.delta)
  also have "\<dots> = (if r = c then 1 else 0)"
    using vi by simp
  finally show ?thesis .
qed

lemma one_mat_entry: "r < n \<Longrightarrow> c < n \<Longrightarrow> one_mat n ! r ! c = (if r = c then 1 else 0)"
  by (simp add: one_mat_def)

lemma mat_mul_dims:
  "length (mat_mul n A B) = n" "r < n \<Longrightarrow> length (mat_mul n A B ! r) = n"
  by (simp_all add: mat_mul_def)

lemma one_mat_dims:
  "length (one_mat n) = n" "r < n \<Longrightarrow> length (one_mat n ! r) = n"
  by (simp_all add: one_mat_def)

text \<open>
  Claim C9. Constructing a group from a literal square integer matrix raises a validation
  error if and only if the matrix is not symmetric, or some diagonal entry differs from 1,
  or some off-diagonal entry is at most 1 and is not the sentinel \<open>-1\<close>; otherwise the
  validation succeeds and returns the matrix with its index set.
\<close>

theorem classcall_matrix_raises_iff:
  assumes "is_square M"
  shows "((\<exists>e. classcall_matrix M I = Inl e) \<longleftrightarrow>
           ((\<exists>i<length M. \<exists>j<length M. M ! i ! j \<noteq> M ! j ! i) \<or>
            (\<exists>i<length M. M ! i ! i \<noteq> 1) \<or>
            (\<exists>i<length M. \<exists>j<length M. i \<noteq> j \<and> M ! i ! j \<le> 1 \<and> M ! i ! j \<noteq> -1))) \<and>
         ((\<exists>e. classcall_matrix M I = Inl e) \<or>
          classcall_matrix M I = Inr (M, case I of None \<Rightarrow> [0..<length M] | Some J \<Rightarrow> J))"
proof (cases "is_symmetric M")
  case True
  then show ?thesis
    using upper_bad_iff[OF True] diagonal_bad_iff[of M]
    by (auto simp: classcall_matrix_def is_symmetric_iff)
next
  case False
  then show ?thesis using assms by (auto simp: classcall_matrix_def is_symmetric_iff)
qed

theorem classcall_matrix_raises_iff_witness:
  "is_square [[1, 3], [3, 1 :: int]] \<and>
   classcall_matrix [[1, 3], [3, 1]] None = Inr ([[1, 3], [3, 1]], [0, 1]) \<and>
   is_square [[1, 3], [4, 1 :: int]] \<and>
   (\<exists>e. classcall_matrix [[1, 3], [4, 1]] None = Inl e)"
proof -
  have sq1: "is_square [[1, 3], [3, 1 :: int]]" by (simp add: is_square_def)
  have sq2: "is_square [[1, 3], [4, 1 :: int]]" by (simp add: is_square_def)
  have n1: "\<not> (\<exists>e. classcall_matrix [[1, 3], [3, 1]] None = Inl e)"
    using classcall_matrix_raises_iff[OF sq1, of None] by (simp add: less_Suc_eq nth_Cons')
  have e2: "\<exists>e. classcall_matrix [[1, 3], [4, 1]] None = Inl e"
  proof -
    have "\<exists>i<length [[1, 3], [4, 1 :: int]]. \<exists>j<length [[1, 3], [4, 1 :: int]].
            [[1, 3], [4, 1 :: int]] ! i ! j \<noteq> [[1, 3], [4, 1]] ! j ! i"
      by (intro exI[of _ 0] exI[of _ 1] conjI) simp_all
    then show ?thesis using classcall_matrix_raises_iff[OF sq2, of None] by blast
  qed
  have "classcall_matrix [[1, 3], [3, 1]] None = Inr ([[1, 3], [3, 1]], [0, 1])"
    using classcall_matrix_raises_iff[OF sq1, of None] n1 by (simp add: upt_rec)
  then show ?thesis using sq1 sq2 e2 by blast
qed

text \<open>
  Claim C1 as stated, with the perturbation in column \<open>i\<close> and a zero at \<open>(i, i)\<close>, fails on
  the Coxeter matrix of type \<open>A\<^sub>2\<close>: the first generator has \<open>-1\<close> at \<open>(0, 0)\<close>.
\<close>

theorem generator_not_column_form:
  "valid_coxeter [[1, 3], [3, 1]] \<and> gens [[1, 3], [3, 1]] ! 0 \<noteq> column_gen [[1, 3], [3, 1]] 0"
proof
  show "valid_coxeter [[1, 3], [3, 1]]"
    by (simp add: valid_coxeter_def is_square_def upt_rec)
  have a: "gens [[1, 3], [3, 1]] ! 0 ! 0 ! 0 = - 1"
    by (simp add: gens_entry val_one)
  have b: "column_gen [[1, 3], [3, 1]] 0 ! 0 ! 0 = 1"
    by (simp add: column_gen_def Let_def upt_rec)
  show "gens [[1, 3], [3, 1]] ! 0 \<noteq> column_gen [[1, 3], [3, 1]] 0"
    using a b by auto
qed

text \<open>
  Claim C1, amended. For every valid Coxeter matrix \<open>M\<close> and every index \<open>i\<close>, the \<open>i\<close>-th
  generator matrix produced at construction equals the identity plus a matrix whose nonzero
  entries are all in row \<open>i\<close>, with entry \<open>2 cos(\<pi>/M[i][j])\<close> at column \<open>j \<noteq> i\<close> (2 for the
  sentinel \<open>-1\<close>) and entry \<open>-2\<close> at \<open>(i, i)\<close>.
\<close>

theorem generator_row_form:
  assumes "valid_coxeter M" and "i < length M"
  shows "cg_gens (init M I) ! i = row_gen M i"
proof -
  let ?n = "length M"
  have d: "M ! i ! i = 1" using assms by (rule valid_diag)
  have "gens M ! i = row_gen M i"
  proof (rule nth_equalityI)
    show "length (gens M ! i) = length (row_gen M i)"
      using assms(2) by (simp add: gens_dims row_gen_def Let_def)
  next
    fix r assume "r < length (gens M ! i)"
    then have r: "r < ?n" using assms(2) by (simp add: gens_dims)
    show "gens M ! i ! r = row_gen M i ! r"
    proof (rule nth_equalityI)
      show "length (gens M ! i ! r) = length (row_gen M i ! r)"
        using assms(2) r by (simp add: gens_dims row_gen_def Let_def)
    next
      fix c assume "c < length (gens M ! i ! r)"
      then have c: "c < ?n" using assms(2) r by (simp add: gens_dims)
      show "gens M ! i ! r ! c = row_gen M i ! r ! c"
        using assms(2) r c d by (simp add: gens_entry row_gen_def Let_def val_def)
    qed
  qed
  then show ?thesis by (simp add: init_def)
qed

theorem generator_row_form_witness:
  "valid_coxeter [[1, 3], [3, 1]] \<and> (0::nat) < length [[1, 3], [3, 1 :: int]] \<and>
   cg_gens (init [[1, 3], [3, 1]] [0, 1 :: nat]) ! 0 = [[- 1, 1], [0, 1]]"
proof -
  have v: "valid_coxeter [[1, 3], [3, 1]]"
    by (simp add: valid_coxeter_def is_square_def upt_rec)
  have l: "(0::nat) < length [[1, 3], [3, 1 :: int]]" by simp
  have "row_gen [[1, 3], [3, 1]] 0 = [[- 1, 1], [0, 1]]"
    by (simp add: row_gen_def Let_def upt_rec cos_60)
  then show ?thesis using generator_row_form[OF v l, of "[0, 1 :: nat]"] v by simp
qed

text \<open>
  Claim C7. For every valid Coxeter matrix the matrix returned by \<^verbatim>\<open>bilinear_form()\<close> is
  symmetric, has 1 on the diagonal, and off the diagonal holds \<open>-cos(\<pi>/M[i][j])\<close> (\<open>-1\<close> for
  the sentinel), a number between \<open>-1\<close> and 1.
\<close>

theorem bilinear_form_entries:
  assumes "valid_coxeter M" and "i < length M" and "j < length M"
  shows "bilinear_form (init M I) ! i ! j = bilinear_form (init M I) ! j ! i \<and>
         bilinear_form (init M I) ! i ! i = 1 \<and>
         (i \<noteq> j \<longrightarrow>
            bilinear_form (init M I) ! i ! j =
              (if M ! i ! j = - 1 then - 1 else - cos (pi / real_of_int (M ! i ! j))) \<and>
            - 1 \<le> bilinear_form (init M I) ! i ! j \<and>
            bilinear_form (init M I) ! i ! j \<le> 1)"
proof -
  have B: "bilinear_form (init M I) = bilinear M" by (simp add: bilinear_form_def init_def)
  have sym: "M ! i ! j = M ! j ! i" using assms by (rule valid_sym)
  have d: "M ! i ! i = 1" using assms(1,2) by (rule valid_diag)
  have s: "bilinear M ! i ! j = bilinear M ! j ! i"
    using assms sym by (simp add: bilinear_entry)
  have o: "bilinear M ! i ! i = 1"
    using assms d by (simp add: bilinear_entry val_one)
  have e: "bilinear M ! i ! j = (if M ! i ! j = - 1 then - 1 else - cos (pi / real_of_int (M ! i ! j)))"
    using assms by (simp add: bilinear_entry val_def)
  have lo: "- 1 \<le> (if M ! i ! j = - 1 then - 1 else - cos (pi / real_of_int (M ! i ! j)))"
    by simp
  have hi: "(if M ! i ! j = - 1 then - 1 else - cos (pi / real_of_int (M ! i ! j))) \<le> 1"
    using cos_ge_minus_one[of "pi / real_of_int (M ! i ! j)"] by simp
  show ?thesis unfolding B using s o e lo hi by simp
qed

theorem bilinear_form_entries_witness:
  "valid_coxeter [[1, 3], [3, 1]] \<and>
   bilinear_form (init [[1, 3], [3, 1]] [0, 1 :: nat]) ! 0 ! 1 = - (1 / 2) \<and>
   bilinear_form (init [[1, 3], [3, 1]] [0, 1 :: nat]) ! 0 ! 1 \<le> 1"
proof -
  have v: "valid_coxeter [[1, 3], [3, 1]]"
    by (simp add: valid_coxeter_def is_square_def upt_rec)
  show ?thesis
    using bilinear_form_entries[OF v, of 0 1 "[0, 1 :: nat]"] v by (simp add: cos_60)
qed

text \<open>
  Claim C10. For every valid Coxeter matrix and every index \<open>i\<close>, the \<open>i\<close>-th generator matrix
  produced at construction is an involution: its square is the identity matrix.
\<close>

theorem generator_involution:
  assumes "valid_coxeter M" and "i < length M"
  shows "mat_mul (length M) (cg_gens (init M I) ! i) (cg_gens (init M I) ! i) = one_mat (length M)"
proof -
  let ?n = "length M"
  have d: "M ! i ! i = 1" using assms by (rule valid_diag)
  have "mat_mul ?n (gens M ! i) (gens M ! i) = one_mat ?n"
  proof (rule nth_equalityI)
    show "length (mat_mul ?n (gens M ! i) (gens M ! i)) = length (one_mat ?n)"
      by (simp add: mat_mul_dims one_mat_dims)
  next
    fix r assume "r < length (mat_mul ?n (gens M ! i) (gens M ! i))"
    then have r: "r < ?n" by (simp add: mat_mul_dims)
    show "mat_mul ?n (gens M ! i) (gens M ! i) ! r = one_mat ?n ! r"
    proof (rule nth_equalityI)
      show "length (mat_mul ?n (gens M ! i) (gens M ! i) ! r) = length (one_mat ?n ! r)"
        using r by (simp add: mat_mul_dims one_mat_dims)
    next
      fix c assume "c < length (mat_mul ?n (gens M ! i) (gens M ! i) ! r)"
      then have c: "c < ?n" using r by (simp add: mat_mul_dims)
      show "mat_mul ?n (gens M ! i) (gens M ! i) ! r ! c = one_mat ?n ! r ! c"
        using gen_square_entry[OF d assms(2) r c] r c by (simp add: one_mat_entry)
    qed
  qed
  then show ?thesis by (simp add: init_def)
qed

theorem generator_involution_witness:
  "valid_coxeter [[1, 3], [3, 1]] \<and>
   mat_mul 2 (cg_gens (init [[1, 3], [3, 1]] [0, 1 :: nat]) ! 0)
             (cg_gens (init [[1, 3], [3, 1]] [0, 1 :: nat]) ! 0) = [[1, 0], [0, 1]]"
proof -
  have v: "valid_coxeter [[1, 3], [3, 1]]"
    by (simp add: valid_coxeter_def is_square_def upt_rec)
  have l: "length [[1, 3], [3, 1 :: int]] = 2" by simp
  have i: "0 < length [[1, 3], [3, 1 :: int]]" by simp
  have e: "one_mat 2 = [[1, 0], [0, 1]]"
    by (simp add: one_mat_def upt_rec)
  have "mat_mul 2 (cg_gens (init [[1, 3], [3, 1]] [0, 1 :: nat]) ! 0)
             (cg_gens (init [[1, 3], [3, 1]] [0, 1 :: nat]) ! 0) = [[1, 0], [0, 1]]"
    using generator_involution[OF v i, of "[0, 1 :: nat]", unfolded l] e by (rule trans)
  with v show ?thesis by (rule conjI)
qed


section \<open>Properties of the finiteness test\<close>


lemma classify_list_all: "classify M G cs = list_all (comp_finite M G) cs"
  by (induction cs) simp_all

lemma cc_scan_components:
  "c \<in> set (cc_scan G vs seen) \<Longrightarrow> \<exists>v. c = component_of G v"
proof (induction vs arbitrary: seen)
  case Nil
  then show ?case by simp
next
  case (Cons v vs)
  then show ?case by (auto simp: Let_def split: if_splits)
qed

lemma connected_components_components:
  assumes "c \<in> set (connected_components G)"
  shows "\<exists>v. c = component_of G v"
  using assms cc_scan_components by (simp add: connected_components_def)

lemma diagram_graph_verts: "gverts (diagram_graph M) = [0..<length M]"
  by (simp add: diagram_graph_def Let_def)

lemma component_of_diagram:
  "component_of (diagram_graph M) v
     = filter (\<lambda>w. w \<in> set (concat (layers_from (diagram_graph M) v))) [0..<length M]"
  by (simp add: component_of_def diagram_graph_verts)

lemma component_distinct:
  assumes "c \<in> set (connected_components (diagram_graph M))"
  shows "distinct c" and "\<And>v. v \<in> set c \<Longrightarrow> v < length M"
    and "filter (\<lambda>v. v \<in> set c) [0..<length M] = c"
proof -
  from connected_components_components[OF assms] obtain v where
    c: "c = component_of (diagram_graph M) v" by blast
  show "distinct c" unfolding c component_of_diagram by simp
  show "\<And>w. w \<in> set c \<Longrightarrow> w < length M" unfolding c component_of_diagram by simp
  show "filter (\<lambda>v. v \<in> set c) [0..<length M] = c"
    unfolding c component_of_diagram by (rule filter_cong) auto
qed


lemma is_finite_iff:
  "is_finite M \<longleftrightarrow>
     (\<forall>c \<in> set (connected_components (diagram_graph M)). comp_finite M (diagram_graph M) c)"
  by (simp add: is_finite_def Let_def classify_list_all list_all_iff)

lemma mentries_set:
  "set (mentries M c) = {M ! (c ! i) ! (c ! j) | i j. i < j \<and> j < length c}"
proof -
  have "\<And>a b. b < length c \<Longrightarrow> a < b \<Longrightarrow>
          \<exists>i j. M ! (c ! a) ! (c ! b) = M ! (c ! i) ! (c ! j) \<and> i < j \<and> j < length c"
    by blast
  then show ?thesis by (auto simp: mentries_def)
qed

lemma sorted_first_le:
  assumes "x \<in> set xs"
  shows "sort xs ! 0 \<le> x"
proof -
  have "x \<in> set (sort xs)" using assms by simp
  then obtain i where i: "i < length (sort xs)" "sort xs ! i = x" by (meson in_set_conv_nth)
  have "sort xs ! 0 \<le> sort xs ! i" using i(1) by (intro sorted_nth_mono) simp_all
  then show ?thesis using i by simp
qed

lemma sorted_last_ge:
  assumes "x \<in> set xs"
  shows "x \<le> sort xs ! (length xs - 1)"
proof -
  have "x \<in> set (sort xs)" using assms by simp
  then obtain i where i: "i < length (sort xs)" "sort xs ! i = x" by (meson in_set_conv_nth)
  have "sort xs ! i \<le> sort xs ! (length xs - 1)" using i(1) by (intro sorted_nth_mono) simp_all
  then show ?thesis using i by simp
qed


lemma two_above_sorted:
  fixes xs :: "int list"
  assumes "2 \<le> length (filter (\<lambda>x. t < x) xs)"
  shows "t < sort xs ! (length xs - 2)"
proof (rule ccontr)
  let ?s = "sort xs" and ?k = "length xs"
  assume n: "\<not> t < ?s ! (?k - 2)"
  have len: "2 \<le> ?k" using assms length_filter_le[of "\<lambda>x. t < x" xs] by linarith
  have e: "length (filter (\<lambda>x. t < x) ?s) = length (filter (\<lambda>x. t < x) xs)"
    by (simp add: filter_sort)
  have "filter (\<lambda>x. t < x) (take (?k - 1) ?s) = []"
  proof -
    have "\<forall>x \<in> set (take (?k - 1) ?s). \<not> t < x"
    proof
      fix x assume "x \<in> set (take (?k - 1) ?s)"
      then obtain i where i: "i < ?k - 1" "?s ! i = x"
        by (auto simp: in_set_conv_nth)
      have "?s ! i \<le> ?s ! (?k - 2)" using i(1) len by (intro sorted_nth_mono) auto
      then show "\<not> t < x" using n i by simp
    qed
    then show ?thesis by (simp add: filter_empty_conv)
  qed
  then have "length (filter (\<lambda>x. t < x) (take (?k - 1) ?s @ drop (?k - 1) ?s))
               \<le> length (drop (?k - 1) ?s)"
    unfolding filter_append
    using length_filter_le[of "\<lambda>x. t < x" "drop (?k - 1) ?s"] by simp
  then have "length (filter (\<lambda>x. t < x) ?s) \<le> 1"
    using len by simp
  then have "length (filter (\<lambda>x. t < x) xs) \<le> 1" using e by simp
  then show False using assms by simp
qed



lemma pair_label_in_mentries:
  assumes v: "valid_coxeter M" and lt: "\<And>v. v \<in> set c \<Longrightarrow> v < length M"
    and a: "a \<in> set c" and b: "b \<in> set c" and ab: "a \<noteq> b"
  shows "M ! a ! b \<in> set (mentries M c)"
proof -
  from a obtain i where i: "i < length c" "c ! i = a" by (meson in_set_conv_nth)
  from b obtain j where j: "j < length c" "c ! j = b" by (meson in_set_conv_nth)
  have ij: "i \<noteq> j" using i j ab by auto
  show ?thesis
  proof (cases "i < j")
    case True
    then have "\<exists>i' j'. M ! a ! b = M ! (c ! i') ! (c ! j') \<and> i' < j' \<and> j' < length c"
      using i j by blast
    then show ?thesis unfolding mentries_set by blast
  next
    case False
    then have ji: "j < i" using ij by simp
    have "M ! a ! b = M ! b ! a" using valid_sym[OF v lt[OF a] lt[OF b]] .
    then have "\<exists>i' j'. M ! a ! b = M ! (c ! i') ! (c ! j') \<and> i' < j' \<and> j' < length c"
      using i j ji by blast
    then show ?thesis unfolding mentries_set by blast
  qed
qed



lemma comp_finite_large_reject:
  assumes "5 \<le> length c"
    and "sort (mentries M c) ! 0 < 0 \<or>
         (3 < sort (mentries M c) ! (length (mentries M c) - 1) \<and>
          (3 < sort (mentries M c) ! (length (mentries M c) - 2) \<or>
           4 < sort (mentries M c) ! (length (mentries M c) - 1)))"
  shows "\<not> comp_finite M G c"
  using assms by (auto simp: comp_finite_def Let_def)




lemma comp_finite_four:
  assumes "length c = 4"
  shows "comp_finite M G c \<longleftrightarrow>
     (let u = labels4 M c; s = sort u in
      take 5 s = [2, 2, 2, 3, 3] \<and>
      (s ! 5 = 3 \<or>
       ((s ! 5 = 4 \<or> s ! 5 = 5) \<and>
        sort [u ! 0 + u ! 1 + u ! 2, u ! 0 + u ! 3 + u ! 4,
              u ! 1 + u ! 3 + u ! 5, u ! 2 + u ! 4 + u ! 5]
          \<in> {[7, 7, 9, 9], [7, 8, 8, 9], [7, 8, 9, 10]})))"
  using assms by (simp add: comp_finite_def Let_def)

lemma pair_labels_four:
  "pair_labels M [c0, c1, c2, c3] = labels4 M [c0, c1, c2, c3]"
  by (simp add: pair_labels_def labels4_def Let_def)

lemma vertex_sums_four:
  assumes v: "valid_coxeter M" and d: "distinct [c0, c1, c2, c3]"
    and lt: "c0 < length M" "c1 < length M" "c2 < length M" "c3 < length M"
  shows "map (vertex_sum M [c0, c1, c2, c3]) [c0, c1, c2, c3] =
           (let u = labels4 M [c0, c1, c2, c3] in
            [u ! 0 + u ! 1 + u ! 2, u ! 0 + u ! 3 + u ! 4,
             u ! 1 + u ! 3 + u ! 5, u ! 2 + u ! 4 + u ! 5])"
proof -
  have s10: "M ! c1 ! c0 = M ! c0 ! c1" using valid_sym[OF v lt(2) lt(1)] .
  have s20: "M ! c2 ! c0 = M ! c0 ! c2" using valid_sym[OF v lt(3) lt(1)] .
  have s30: "M ! c3 ! c0 = M ! c0 ! c3" using valid_sym[OF v lt(4) lt(1)] .
  have s21: "M ! c2 ! c1 = M ! c1 ! c2" using valid_sym[OF v lt(3) lt(2)] .
  have s31: "M ! c3 ! c1 = M ! c1 ! c3" using valid_sym[OF v lt(4) lt(2)] .
  have s32: "M ! c3 ! c2 = M ! c2 ! c3" using valid_sym[OF v lt(4) lt(3)] .
  show ?thesis
    using d by (auto simp: vertex_sum_def labels4_def Let_def s10 s20 s30 s21 s31 s32)
qed

text \<open>
  Claim C2 as stated fails: the group of \<open>[[1,6,3],[6,1,10],[3,10,1]]\<close> is classified
  infinite, since its sorted labels \<open>[3, 6, 10]\<close> do not start with 2.
\<close>

theorem finiteness_reference_cases_fail:
  "\<not> (cg_finite (init [[1, 3], [3, 1]] [0, 1 :: nat]) \<and>
      cg_finite (init [[1, 3, 2], [3, 1, 3], [2, 3, 1]] [0, 1, 2 :: nat]) \<and>
      cg_finite (init [[1, 6, 3], [6, 1, 10], [3, 10, 1]] [0, 1, 2 :: nat]) \<and>
      \<not> cg_finite (init [[1, - 1], [- 1, 1]] [0, 1 :: nat]))"
proof -
  have "\<not> is_finite [[1, 6, 3], [6, 1, 10], [3, 10, 1]]" by code_simp
  then show ?thesis by (simp add: init_def)
qed

text \<open>
  Claim C2, amended. The finiteness flag computed at construction is: finite for
  \<open>[[1,3],[3,1]]\<close>, finite for \<open>[[1,3,2],[3,1,3],[2,3,1]]\<close>, infinite for
  \<open>[[1,6,3],[6,1,10],[3,10,1]]\<close>, and infinite for \<open>[[1,-1],[-1,1]]\<close>.
\<close>

theorem finiteness_reference_cases:
  "cg_finite (init [[1, 3], [3, 1]] I) \<and>
   cg_finite (init [[1, 3, 2], [3, 1, 3], [2, 3, 1]] I) \<and>
   \<not> cg_finite (init [[1, 6, 3], [6, 1, 10], [3, 10, 1]] I) \<and>
   \<not> cg_finite (init [[1, - 1], [- 1, 1]] I)"
proof -
  have 1: "is_finite [[1, 3], [3, 1]]" by code_simp
  have 2: "is_finite [[1, 3, 2], [3, 1, 3], [2, 3, 1]]" by code_simp
  have 3: "\<not> is_finite [[1, 6, 3], [6, 1, 10], [3, 10, 1]]" by code_simp
  have 4: "\<not> is_finite [[1, - 1], [- 1, 1]]" by code_simp
  show ?thesis using 1 2 3 4 by (simp add: init_def)
qed

text \<open>
  Claim C3. For a valid Coxeter matrix and a connected component of the diagram graph with
  exactly four vertices, the classifier accepts the component if and only if the six
  pairwise labels, sorted, start with \<open>[2,2,2,3,3]\<close> and either the sixth is 3, or the sixth
  is 4 or 5 and the sorted sums of the three labels at each vertex are \<open>[7,7,9,9]\<close>,
  \<open>[7,8,8,9]\<close> or \<open>[7,8,9,10]\<close>.
\<close>

theorem four_vertex_component:
  assumes v: "valid_coxeter M"
    and c: "cmpt \<in> set (connected_components (diagram_graph M))"
    and l: "length cmpt = 4"
  shows "comp_finite M (diagram_graph M) cmpt \<longleftrightarrow>
     (let s = sort (pair_labels M cmpt) in
      take 5 s = [2, 2, 2, 3, 3] \<and>
      (s ! 5 = 3 \<or>
       ((s ! 5 = 4 \<or> s ! 5 = 5) \<and>
        sort (map (vertex_sum M cmpt) cmpt) \<in> {[7, 7, 9, 9], [7, 8, 8, 9], [7, 8, 9, 10]})))"
proof -
  from l obtain c0 c1 c2 c3 where e: "cmpt = [c0, c1, c2, c3]"
    by (auto simp: length_Suc_conv numeral_eq_Suc)
  have d: "distinct [c0, c1, c2, c3]" using component_distinct(1)[OF c] e by simp
  have lt: "c0 < length M" "c1 < length M" "c2 < length M" "c3 < length M"
    using component_distinct(2)[OF c] e by simp_all
  have A: "comp_finite M (diagram_graph M) cmpt \<longleftrightarrow>
     (let u = labels4 M cmpt; s = sort u in
      take 5 s = [2, 2, 2, 3, 3] \<and>
      (s ! 5 = 3 \<or>
       ((s ! 5 = 4 \<or> s ! 5 = 5) \<and>
        sort [u ! 0 + u ! 1 + u ! 2, u ! 0 + u ! 3 + u ! 4,
              u ! 1 + u ! 3 + u ! 5, u ! 2 + u ! 4 + u ! 5]
          \<in> {[7, 7, 9, 9], [7, 8, 8, 9], [7, 8, 9, 10]})))"
    using l by (rule comp_finite_four)
  have B: "map (vertex_sum M cmpt) cmpt =
           (let u = labels4 M cmpt in
            [u ! 0 + u ! 1 + u ! 2, u ! 0 + u ! 3 + u ! 4,
             u ! 1 + u ! 3 + u ! 5, u ! 2 + u ! 4 + u ! 5])"
    using vertex_sums_four[OF v d lt] unfolding e .
  have C: "pair_labels M cmpt = labels4 M cmpt"
    unfolding e by (rule pair_labels_four)
  show ?thesis unfolding A B C Let_def by (rule refl)
qed

theorem four_vertex_component_witness:
  "valid_coxeter [[1, 3, 2, 2], [3, 1, 3, 2], [2, 3, 1, 4], [2, 2, 4, 1]] \<and>
   [0, 1, 2, 3] \<in> set (connected_components
       (diagram_graph [[1, 3, 2, 2], [3, 1, 3, 2], [2, 3, 1, 4], [2, 2, 4, 1]])) \<and>
   comp_finite [[1, 3, 2, 2], [3, 1, 3, 2], [2, 3, 1, 4], [2, 2, 4, 1]]
     (diagram_graph [[1, 3, 2, 2], [3, 1, 3, 2], [2, 3, 1, 4], [2, 2, 4, 1]]) [0, 1, 2, 3]"
proof -
  let ?M = "[[1, 3, 2, 2], [3, 1, 3, 2], [2, 3, 1, 4], [2, 2, 4, 1 :: int]]"
  have v: "valid_coxeter ?M" by code_simp
  have c: "[0, 1, 2, 3] \<in> set (connected_components (diagram_graph ?M))" by code_simp
  have l: "length [0, 1, 2, 3 :: nat] = 4" by simp
  have r: "(let s = sort (pair_labels ?M [0, 1, 2, 3]) in
      take 5 s = [2, 2, 2, 3, 3] \<and>
      (s ! 5 = 3 \<or>
       ((s ! 5 = 4 \<or> s ! 5 = 5) \<and>
        sort (map (vertex_sum ?M [0, 1, 2, 3]) [0, 1, 2, 3])
          \<in> {[7, 7, 9, 9], [7, 8, 8, 9], [7, 8, 9, 10]})))"
    by code_simp
  have "comp_finite ?M (diagram_graph ?M) [0, 1, 2, 3]"
    using four_vertex_component[OF v c l] r by (rule iffD2)
  with v c show ?thesis by blast
qed

text \<open>
  Claim C4. For a valid Coxeter matrix and a connected component of the diagram graph with
  five or more vertices, if some pairwise label inside the component is negative, or at
  least two of the pairwise labels of the component are greater than 3 (the list
  \<open>mentries\<close> holds the label of every unordered pair once), or some pairwise label exceeds
  5, then the finiteness flag of the group is false.
\<close>

theorem large_component_rejected:
  assumes v: "valid_coxeter M"
    and c: "cmpt \<in> set (connected_components (diagram_graph M))"
    and l: "5 \<le> length cmpt"
    and h: "(\<exists>a\<in>set cmpt. \<exists>b\<in>set cmpt. a \<noteq> b \<and> M ! a ! b < 0) \<or>
            2 \<le> length (filter (\<lambda>x. 3 < x) (mentries M cmpt)) \<or>
            (\<exists>a\<in>set cmpt. \<exists>b\<in>set cmpt. a \<noteq> b \<and> 5 < M ! a ! b)"
  shows "\<not> cg_finite (init M I)"
proof -
  let ?ms = "sort (mentries M cmpt)" and ?k = "length (mentries M cmpt)"
  have lt: "\<And>v. v \<in> set cmpt \<Longrightarrow> v < length M" using component_distinct(2)[OF c] .
  have r: "?ms ! 0 < 0 \<or> (3 < ?ms ! (?k - 1) \<and> (3 < ?ms ! (?k - 2) \<or> 4 < ?ms ! (?k - 1)))"
    using h
  proof (elim disjE)
    assume "\<exists>a\<in>set cmpt. \<exists>b\<in>set cmpt. a \<noteq> b \<and> M ! a ! b < 0"
    then obtain a b where ab: "a \<in> set cmpt" "b \<in> set cmpt" "a \<noteq> b" "M ! a ! b < 0" by blast
    have "?ms ! 0 \<le> M ! a ! b"
      using pair_label_in_mentries[OF v lt ab(1,2,3)] by (rule sorted_first_le)
    then show ?thesis using ab(4) by simp
  next
    assume t: "2 \<le> length (filter (\<lambda>x. 3 < x) (mentries M cmpt))"
    then have a: "3 < ?ms ! (?k - 2)" by (rule two_above_sorted)
    have "2 \<le> ?k" using t length_filter_le[of "\<lambda>x. 3 < x" "mentries M cmpt"] by linarith
    then have "?ms ! (?k - 2) \<le> ?ms ! (?k - 1)" by (intro sorted_nth_mono) simp_all
    then show ?thesis using a by simp
  next
    assume "\<exists>a\<in>set cmpt. \<exists>b\<in>set cmpt. a \<noteq> b \<and> 5 < M ! a ! b"
    then obtain a b where ab: "a \<in> set cmpt" "b \<in> set cmpt" "a \<noteq> b" "5 < M ! a ! b" by blast
    have "M ! a ! b \<le> ?ms ! (?k - 1)"
      using pair_label_in_mentries[OF v lt ab(1,2,3)] by (rule sorted_last_ge)
    then show ?thesis using ab(4) by simp
  qed
  have "\<not> comp_finite M (diagram_graph M) cmpt"
    using l r by (rule comp_finite_large_reject)
  then have "\<not> is_finite M" unfolding is_finite_iff using c by blast
  then show ?thesis by (simp add: init_def)
qed

theorem large_component_rejected_witness:
  "valid_coxeter [[1, 3, 2, 2, 2], [3, 1, 3, 2, 2], [2, 3, 1, 3, 2], [2, 2, 3, 1, 6], [2, 2, 2, 6, 1]] \<and>
   [0, 1, 2, 3, 4] \<in> set (connected_components (diagram_graph
      [[1, 3, 2, 2, 2], [3, 1, 3, 2, 2], [2, 3, 1, 3, 2], [2, 2, 3, 1, 6], [2, 2, 2, 6, 1]])) \<and>
   \<not> cg_finite (init
      [[1, 3, 2, 2, 2], [3, 1, 3, 2, 2], [2, 3, 1, 3, 2], [2, 2, 3, 1, 6], [2, 2, 2, 6, 1]]
      [0, 1, 2, 3, 4 :: nat])"
proof -
  let ?M = "[[1, 3, 2, 2, 2], [3, 1, 3, 2, 2], [2, 3, 1, 3, 2], [2, 2, 3, 1, 6], [2, 2, 2, 6, 1 :: int]]"
  have v: "valid_coxeter ?M" by code_simp
  have c: "[0, 1, 2, 3, 4] \<in> set (connected_components (diagram_graph ?M))" by code_simp
  have l: "5 \<le> length [0, 1, 2, 3, 4 :: nat]" by simp
  have "\<exists>a\<in>set [0, 1, 2, 3, 4 :: nat]. \<exists>b\<in>set [0, 1, 2, 3, 4 :: nat]. a \<noteq> b \<and> 5 < ?M ! a ! b"
    by code_simp
  then have h: "(\<exists>a\<in>set [0, 1, 2, 3, 4 :: nat]. \<exists>b\<in>set [0, 1, 2, 3, 4]. a \<noteq> b \<and> ?M ! a ! b < 0) \<or>
            2 \<le> length (filter (\<lambda>x. 3 < x) (mentries ?M [0, 1, 2, 3, 4])) \<or>
            (\<exists>a\<in>set [0, 1, 2, 3, 4 :: nat]. \<exists>b\<in>set [0, 1, 2, 3, 4]. a \<noteq> b \<and> 5 < ?M ! a ! b)"
    by blast
  have "\<not> cg_finite (init ?M [0, 1, 2, 3, 4 :: nat])"
    using large_component_rejected[OF v c l h] .
  with v c show ?thesis by blast
qed




section \<open>Properties of the digraph of a crystal\<close>



lemma last_label_Nil: "last_label f [] x y = None"
  by (simp add: last_label_def)

lemma last_label_SomeD:
  assumes "last_label f idx x y = Some l"
  shows "l \<in> set idx \<and> f l x = Some y"
proof -
  let ?js = "filter (\<lambda>i. f i x = Some y) idx"
  from assms have "?js \<noteq> []" and "l = last ?js"
    by (auto simp: last_label_def Let_def split: if_splits)
  then have "l \<in> set ?js" using last_in_set by blast
  then show ?thesis by simp
qed

lemma last_label_exists:
  assumes "i \<in> set idx" and "f i x = Some y"
  shows "\<exists>l. last_label f idx x y = Some l"
proof -
  have "filter (\<lambda>j. f j x = Some y) idx \<noteq> []"
    unfolding filter_empty_conv using assms by blast
  then show ?thesis by (simp add: last_label_def Let_def)
qed

lemma last_label_snoc:
  "last_label f (idx @ [i]) x y = (if f i x = Some y then Some i else last_label f idx x y)"
  by (simp add: last_label_def Let_def)

lemma map_fst_map_entry: "map fst (AList.map_entry k g d) = map fst d"
  by (induction d) auto

lemma map_fst_digraph_step: "map fst (digraph_step f i x d) = map fst d"
  by (simp add: digraph_step_def map_fst_map_entry split: option.splits)

lemma map_of_digraph_step:
  "map_of (digraph_step f i x d) x' =
     (if x' = x
      then (case map_of d x of None \<Rightarrow> None
            | Some m \<Rightarrow> Some (case f i x of None \<Rightarrow> m | Some y \<Rightarrow> AList.update y i m))
      else map_of d x')"
  by (simp add: digraph_step_def AList.map_of_map_entry split: option.splits)

lemma map_fst_inner: "map fst (fold (digraph_step f i) ks d) = map fst d"
  by (induction ks arbitrary: d) (simp_all add: map_fst_digraph_step)

lemma map_of_inner:
  assumes "distinct ks"
  shows "map_of (fold (digraph_step f i) ks d) x =
     (if x \<in> set ks
      then (case map_of d x of None \<Rightarrow> None
            | Some m \<Rightarrow> Some (case f i x of None \<Rightarrow> m | Some y \<Rightarrow> AList.update y i m))
      else map_of d x)"
  using assms
proof (induction ks arbitrary: d)
  case Nil
  then show ?case by simp
next
  case (Cons k ks)
  then have d: "distinct ks" and k: "k \<notin> set ks" by simp_all
  show ?case
    using Cons.IH[OF d, of "digraph_step f i k d"] k
    by (auto simp: map_of_digraph_step)
qed


lemma init_dict_fold:
  "map_of (fold (\<lambda>x. AList.update x ([] :: ('a \<times> 'i) list)) xs d) x =
     (if x \<in> set xs then Some [] else map_of d x)"
  by (induction xs arbitrary: d) (simp_all add: AList.update_conv')

lemma init_dict_keys_fold:
  "fst ` set (fold (\<lambda>x. AList.update x ([] :: ('a \<times> 'i) list)) xs d) = set xs \<union> fst ` set d"
  by (induction xs arbitrary: d) (auto simp: AList.dom_update)

lemma init_dict_distinct_fold:
  "distinct (map fst d) \<Longrightarrow>
   distinct (map fst (fold (\<lambda>x. AList.update x ([] :: ('a \<times> 'i) list)) xs d))"
  by (induction xs arbitrary: d) (simp_all add: AList.distinct_update)

lemma init_dict_props:
  "map_of (init_dict xs) x = (if x \<in> set xs then Some [] else None)"
  "fst ` set (init_dict xs) = set xs"
  "distinct (map fst (init_dict xs))"
  unfolding init_dict_def
  by (simp_all add: init_dict_fold init_dict_keys_fold init_dict_distinct_fold)

lemma dict_inv_init: "dict_inv f xs [] (init_dict xs)"
  unfolding dict_inv_def set_map
  by (simp add: init_dict_props last_label_Nil split: if_splits)

lemma dict_inv_step:
  assumes "dict_inv f xs seen d"
  shows "dict_inv f xs (seen @ [i]) (fold (digraph_step f i) (map fst d) d)"
proof -
  from assms have dk: "distinct (map fst d)" and ks: "set (map fst d) = set xs"
    and inner: "\<And>x m. map_of d x = Some m \<Longrightarrow>
        distinct (map fst m) \<and> (\<forall>y. map_of m y = last_label f seen x y)"
    by (auto simp: dict_inv_def)
  let ?d' = "fold (digraph_step f i) (map fst d) d"
  have k': "map fst ?d' = map fst d" by (rule map_fst_inner)
  have "\<And>x m'. map_of ?d' x = Some m' \<Longrightarrow>
        distinct (map fst m') \<and> (\<forall>y. map_of m' y = last_label f (seen @ [i]) x y)"
  proof -
    fix x m' assume a: "map_of ?d' x = Some m'"
    have xk: "x \<in> set (map fst d)"
      using a k' by (metis map_of_eq_None_iff option.distinct(1) set_map)
    from a obtain m where m: "map_of d x = Some m"
      and m': "m' = (case f i x of None \<Rightarrow> m | Some y \<Rightarrow> AList.update y i m)"
      using xk by (auto simp: map_of_inner[OF dk] split: option.splits)
    show "distinct (map fst m') \<and> (\<forall>y. map_of m' y = last_label f (seen @ [i]) x y)"
      using inner[OF m] unfolding m'
      by (auto simp: last_label_snoc AList.distinct_update AList.update_conv' split: option.splits)
  qed
  then show ?thesis unfolding dict_inv_def k' using dk ks by blast
qed

lemma dict_inv_fold:
  assumes "dict_inv f xs seen d"
  shows "dict_inv f xs (seen @ idx) (fold (\<lambda>i d. fold (digraph_step f i) (map fst d) d) idx d)"
  using assms
proof (induction idx arbitrary: seen d)
  case Nil
  then show ?case by simp
next
  case (Cons i idx)
  show ?case using Cons.IH[OF dict_inv_step[OF Cons.prems, of i]] by simp
qed

lemma dict_inv_digraph_dict: "dict_inv f xs idx (digraph_dict xs idx f)"
  using dict_inv_fold[OF dict_inv_init, of f xs idx] by (simp add: digraph_dict_def)



lemma edges_of_dict:
  "(x, y, l) \<in> set (dg_edges (digraph_of_dict d)) \<longleftrightarrow>
     (\<exists>m. (x, m) \<in> set d \<and> (y, l) \<in> set m)"
  by (auto simp: digraph_of_dict_def)

lemma verts_of_dict:
  "set (dg_verts (digraph_of_dict d)) = fst ` set d \<union> (\<Union>p\<in>set d. fst ` set (snd p))"
  by (simp add: digraph_of_dict_def case_prod_beta)

lemma pair_keys_distinct:
  assumes "distinct (map fst d)"
    and "\<And>x m. (x, m) \<in> set d \<Longrightarrow> distinct (map fst m)"
  shows "distinct (map (\<lambda>e. (fst e, fst (snd e))) (dg_edges (digraph_of_dict d)))"
proof -
  have e: "map (\<lambda>e. (fst e, fst (snd e))) (dg_edges (digraph_of_dict d))
             = concat (map (\<lambda>p. map (\<lambda>q. (fst p, fst q)) (snd p)) d)"
    by (simp add: digraph_of_dict_def map_concat comp_def case_prod_beta)
  have "distinct (concat (map (\<lambda>p. map (\<lambda>q. (fst p, fst q)) (snd p)) d))"
    using assms
  proof (induction d)
    case Nil
    then show ?case by simp
  next
    case (Cons p d)
    have 1: "distinct (map (\<lambda>q. (fst p, fst q)) (snd p))"
    proof -
      have "distinct (map fst (snd p))" using Cons.prems(2)[of "fst p" "snd p"] by simp
      then have "distinct (map (Pair (fst p)) (map fst (snd p)))"
        by (simp add: distinct_map inj_on_def)
      then show ?thesis by (simp add: comp_def)
    qed
    have 2: "distinct (concat (map (\<lambda>p. map (\<lambda>q. (fst p, fst q)) (snd p)) d))"
    proof (rule Cons.IH)
      show "distinct (map fst d)" using Cons.prems(1) by simp
    next
      fix x m assume "(x, m) \<in> set d"
      then show "distinct (map fst m)" using Cons.prems(2)[of x m] by simp
    qed
    have 3: "set (map (\<lambda>q. (fst p, fst q)) (snd p))
               \<inter> set (concat (map (\<lambda>p. map (\<lambda>q. (fst p, fst q)) (snd p)) d)) = {}"
      using Cons.prems(1) by force
    show ?case using 1 2 3 by simp
  qed
  then show ?thesis unfolding e .
qed

lemma two_arrows_dict: "digraph_dict [0, 1] [1, 2] two_arrows = [(0, [(1, 2)]), (1, [])]"
  by (simp add: digraph_dict_def init_dict_def digraph_step_def two_arrows_def)

lemma two_arrows_digraph:
  "digraph [0, 1] [1, 2] two_arrows = \<lparr>dg_verts = [0, 1], dg_edges = [(0, 1, 2)]\<rparr>"
  unfolding digraph_def two_arrows_dict by (simp add: digraph_of_dict_def)

text \<open>
  Claim C8 as stated fails on the crystal \<open>two_arrows\<close>: the indices 1 and 2 both send 0
  to 1, and the graph has no edge from 0 to 1 labelled 1.
\<close>

theorem digraph_no_parallel_edge:
  "1 \<in> set [1, 2 :: nat] \<and> two_arrows 1 0 = Some 1 \<and>
   (0, 1, 1) \<notin> set (dg_edges (digraph [0, 1] [1, 2] two_arrows))"
  unfolding two_arrows_digraph by (simp add: two_arrows_def)

text \<open>
  Claim C8, amended. For every finite crystal whose lowering operators send elements to
  elements, the graph returned by \<^verbatim>\<open>digraph()\<close> has the element set as its vertex set; it
  has an edge \<open>x \<rightarrow> y\<close> labelled \<open>l\<close> exactly when \<open>x\<close> is an element and \<open>l\<close> is the last index
  \<open>i\<close> of the index set with \<open>f i x = y\<close>; so every successor \<open>y\<close> of \<open>x\<close> has an edge \<open>x \<rightarrow> y\<close>,
  and there is at most one edge for each ordered pair of elements.
\<close>

theorem digraph_edges:
  assumes closed: "\<forall>x\<in>set xs. \<forall>i\<in>set idx. \<forall>y. f i x = Some y \<longrightarrow> y \<in> set xs"
  shows "set (dg_verts (digraph xs idx f)) = set xs \<and>
         (\<forall>x y l. (x, y, l) \<in> set (dg_edges (digraph xs idx f)) \<longleftrightarrow>
                    x \<in> set xs \<and> last_label f idx x y = Some l) \<and>
         (\<forall>x\<in>set xs. \<forall>i\<in>set idx. \<forall>y. f i x = Some y \<longrightarrow>
            (\<exists>l. (x, y, l) \<in> set (dg_edges (digraph xs idx f)))) \<and>
         distinct (map (\<lambda>e. (fst e, fst (snd e))) (dg_edges (digraph xs idx f)))"
proof -
  let ?d = "digraph_dict xs idx f"
  have inv: "dict_inv f xs idx ?d" by (rule dict_inv_digraph_dict)
  then have dk: "distinct (map fst ?d)" and ks: "fst ` set ?d = set xs"
    and inner: "\<And>x m. map_of ?d x = Some m \<Longrightarrow>
        distinct (map fst m) \<and> (\<forall>y. map_of m y = last_label f idx x y)"
    by (auto simp: dict_inv_def)
  have mem: "\<And>x m. (x, m) \<in> set ?d \<longleftrightarrow> map_of ?d x = Some m"
    using dk by simp
  have E: "\<And>x y l. (x, y, l) \<in> set (dg_edges (digraph xs idx f)) \<longleftrightarrow>
                    x \<in> set xs \<and> last_label f idx x y = Some l"
  proof -
    fix x y l
    show "(x, y, l) \<in> set (dg_edges (digraph xs idx f)) \<longleftrightarrow>
            x \<in> set xs \<and> last_label f idx x y = Some l"
    proof
      assume "(x, y, l) \<in> set (dg_edges (digraph xs idx f))"
      then obtain m where m: "(x, m) \<in> set ?d" "(y, l) \<in> set m"
        by (auto simp: digraph_def edges_of_dict)
      have x: "x \<in> set xs" using m(1) ks by force
      have mo: "map_of ?d x = Some m" using m(1) mem by simp
      have dm: "distinct (map fst m)" using inner[OF mo] by (rule conjunct1)
      have lm: "map_of m y = last_label f idx x y" using inner[OF mo] by blast
      have "map_of m y = Some l" using dm m(2) by simp
      then show "x \<in> set xs \<and> last_label f idx x y = Some l" using lm x by simp
    next
      assume a: "x \<in> set xs \<and> last_label f idx x y = Some l"
      then have "x \<in> fst ` set ?d" using ks by simp
      then obtain m where m: "(x, m) \<in> set ?d" by auto
      have mo: "map_of ?d x = Some m" using m mem by simp
      have dm: "distinct (map fst m)" using inner[OF mo] by (rule conjunct1)
      have lm: "map_of m y = last_label f idx x y" using inner[OF mo] by blast
      have "map_of m y = Some l" using lm a by simp
      then have "(y, l) \<in> set m" using dm by simp
      then show "(x, y, l) \<in> set (dg_edges (digraph xs idx f))"
        using m by (auto simp: digraph_def edges_of_dict)
    qed
  qed
  have V: "set (dg_verts (digraph xs idx f)) = set xs"
  proof -
    have "(\<Union>p\<in>set ?d. fst ` set (snd p)) \<subseteq> set xs"
    proof
      fix y assume "y \<in> (\<Union>p\<in>set ?d. fst ` set (snd p))"
      then obtain p q where p: "p \<in> set ?d" and q: "q \<in> set (snd p)" and y: "y = fst q"
        by blast
      have "(fst p, snd p) \<in> set ?d" using p by simp
      moreover have "(y, snd q) \<in> set (snd p)" using q y by simp
      ultimately have "(fst p, y, snd q) \<in> set (dg_edges (digraph xs idx f))"
        unfolding digraph_def edges_of_dict by blast
      then have x: "fst p \<in> set xs" and ll: "last_label f idx (fst p) y = Some (snd q)"
        using E by simp_all
      from last_label_SomeD[OF ll] closed x show "y \<in> set xs" by blast
    qed
    then show ?thesis unfolding digraph_def verts_of_dict ks by blast
  qed
  have X: "\<forall>x\<in>set xs. \<forall>i\<in>set idx. \<forall>y. f i x = Some y \<longrightarrow>
            (\<exists>l. (x, y, l) \<in> set (dg_edges (digraph xs idx f)))"
  proof (intro ballI allI impI)
    fix x i y assume x: "x \<in> set xs" and i: "i \<in> set idx" and fy: "f i x = Some y"
    have "\<exists>l. last_label f idx x y = Some l" using i fy by (rule last_label_exists)
    then obtain l where "last_label f idx x y = Some l" by blast
    then have "(x, y, l) \<in> set (dg_edges (digraph xs idx f))" using E x by blast
    then show "\<exists>l. (x, y, l) \<in> set (dg_edges (digraph xs idx f))" by blast
  qed
  have D: "distinct (map (\<lambda>e. (fst e, fst (snd e))) (dg_edges (digraph xs idx f)))"
    unfolding digraph_def
  proof (rule pair_keys_distinct[OF dk])
    fix x m assume "(x, m) \<in> set ?d"
    then have "map_of ?d x = Some m" using mem by simp
    then show "distinct (map fst m)" using inner by simp
  qed
  show ?thesis
  proof (intro conjI allI)
    show "set (dg_verts (digraph xs idx f)) = set xs" by (rule V)
    show "\<And>x y l. (x, y, l) \<in> set (dg_edges (digraph xs idx f)) \<longleftrightarrow>
            x \<in> set xs \<and> last_label f idx x y = Some l" by (rule E)
    show "\<forall>x\<in>set xs. \<forall>i\<in>set idx. \<forall>y. f i x = Some y \<longrightarrow>
            (\<exists>l. (x, y, l) \<in> set (dg_edges (digraph xs idx f)))" by (rule X)
    show "distinct (map (\<lambda>e. (fst e, fst (snd e))) (dg_edges (digraph xs idx f)))" by (rule D)
  qed
qed

theorem digraph_edges_witness:
  "set (dg_verts (digraph [0, 1] [1, 2] two_arrows)) = {0, 1} \<and>
   (0, 1, 2) \<in> set (dg_edges (digraph [0, 1] [1, 2] two_arrows))"
proof -
  have closed: "\<forall>x\<in>set [0, 1 :: nat]. \<forall>i\<in>set [1, 2 :: nat]. \<forall>y.
                  two_arrows i x = Some y \<longrightarrow> y \<in> set [0, 1 :: nat]"
    by (simp add: two_arrows_def)
  have ll: "last_label two_arrows [1, 2] 0 1 = Some 2"
    by (simp add: last_label_def two_arrows_def)
  have a: "set (dg_verts (digraph [0, 1] [1, 2] two_arrows)) = set [0, 1 :: nat]"
    using digraph_edges[OF closed] by (rule conjunct1)
  have b: "(0, 1, 2) \<in> set (dg_edges (digraph [0, 1] [1, 2] two_arrows)) \<longleftrightarrow>
           0 \<in> set [0, 1 :: nat] \<and> last_label two_arrows [1, 2] 0 1 = Some 2"
    using digraph_edges[OF closed] by blast
  have c: "(0, 1, 2) \<in> set (dg_edges (digraph [0, 1] [1, 2] two_arrows))"
    unfolding b using ll by simp
  show ?thesis using a c by simp
qed


section \<open>The round trip from matrix to graph to matrix\<close>


lemma upper_triples_set:
  "set (upper_triples M) =
     {(i, j, M ! i ! (i + 1 + j)) | i j. i < length M \<and> i + 1 + j < length (M ! i)}"
  (is "?L = ?R")
proof
  show "?L \<subseteq> ?R"
  proof
    fix t assume "t \<in> ?L"
    then obtain p q where p: "p \<in> set (enumerate 0 M)"
      and q: "q \<in> set (enumerate 0 (drop (fst p + 1) (snd p)))"
      and t: "t = (fst p, fst q, snd q)"
      by (auto simp: upper_triples_def)
    from p have i: "fst p < length M" and r: "snd p = M ! fst p"
      by (auto simp: in_set_enumerate_eq)
    from q have j: "fst q < length (snd p) - (fst p + 1)"
      and v: "snd q = drop (fst p + 1) (snd p) ! fst q"
      by (auto simp: in_set_enumerate_eq)
    have "snd q = M ! fst p ! (fst p + 1 + fst q)" using v j r by simp
    moreover have "fst p + 1 + fst q < length (M ! fst p)" using j r by simp
    ultimately show "t \<in> ?R" using i t by blast
  qed
  show "?R \<subseteq> ?L"
  proof
    fix t assume "t \<in> ?R"
    then obtain i j where i: "i < length M" and j: "i + 1 + j < length (M ! i)"
      and t: "t = (i, j, M ! i ! (i + 1 + j))" by blast
    have p: "(i, M ! i) \<in> set (enumerate 0 M)" using i by (simp add: in_set_enumerate_eq)
    have q: "(j, M ! i ! (i + 1 + j)) \<in> set (enumerate 0 (drop (i + 1) (M ! i)))"
      using j by (simp add: in_set_enumerate_eq)
    have "(i, j, M ! i ! (i + 1 + j)) \<in>
            (\<lambda>(j, v). (i, j, v)) ` set (enumerate 0 (drop (i + 1) (M ! i)))"
      using q by force
    then show "t \<in> ?L" unfolding t upper_triples_def using p by force
  qed
qed

lemma add_vertices_present:
  "set vs \<subseteq> set (lg_verts G) \<Longrightarrow> add_vertices vs G = G"
proof -
  have "\<And>acc. set vs \<subseteq> set acc \<Longrightarrow>
          fold (\<lambda>v acc. if v \<in> set acc then acc else acc @ [v]) vs acc = acc"
    by (induction vs) auto
  then show "set vs \<subseteq> set (lg_verts G) \<Longrightarrow> add_vertices vs G = G"
    by (simp add: add_vertices_def)
qed

lemma add_vertices_fresh:
  assumes "distinct vs" and "set vs \<inter> set acc = {}"
  shows "fold (\<lambda>v acc. if v \<in> set acc then acc else acc @ [v]) vs acc = acc @ vs"
  using assms by (induction vs arbitrary: acc) auto

lemma add_vertices_empty:
  "distinct I \<Longrightarrow> add_vertices I empty_graph = \<lparr>lg_verts = I, lg_edges = []\<rparr>"
  by (simp add: add_vertices_def empty_graph_def add_vertices_fresh)

lemma add_edge_verts:
  "u \<in> set (lg_verts G) \<Longrightarrow> v \<in> set (lg_verts G) \<Longrightarrow> lg_verts (add_edge u v l G) = lg_verts G"
  by (simp add: add_edge_def Let_def add_vertices_present)

lemma add_edge_edges:
  "u \<in> set (lg_verts G) \<Longrightarrow> v \<in> set (lg_verts G) \<Longrightarrow>
   lg_edges (add_edge u v l G) = filter (\<lambda>e. \<not> same_ends u v e) (lg_edges G) @ [(u, v, l)]"
  by (simp add: add_edge_def Let_def add_vertices_present)



lemma covered_add_edge_same:
  assumes "u \<in> set (lg_verts G)" "v \<in> set (lg_verts G)"
  shows "covered (add_edge u v l G) u v"
  using assms by (simp add: covered_def add_edge_edges same_ends_def)

lemma covered_add_edge_other:
  assumes "u \<in> set (lg_verts G)" "v \<in> set (lg_verts G)" and "covered G a b"
  shows "covered (add_edge u v l G) a b"
proof -
  from assms(3) obtain e where e: "e \<in> set (lg_edges G)" "same_ends a b e"
    by (auto simp: covered_def)
  show ?thesis
  proof (cases "same_ends u v e")
    case True
    then have "same_ends a b (u, v, l)" using e(2) by (auto simp: same_ends_def)
    then show ?thesis using assms(1,2) by (auto simp: covered_def add_edge_edges)
  next
    case False
    then have "e \<in> set (lg_edges (add_edge u v l G))"
      using e(1) by (simp add: add_edge_edges[OF assms(1,2)])
    then show ?thesis using e(2) unfolding covered_def by blast
  qed
qed

lemma graph_inv_add_edge:
  assumes inv: "graph_inv M I G" and len: "length I = length M"
    and ik: "i < k" "k < length M" and lab: "edge_label (M ! i ! k) = Some l"
  shows "graph_inv M I (add_edge (I ! i) (I ! k) l G)"
proof -
  have vi: "I ! i \<in> set (lg_verts G)" and vk: "I ! k \<in> set (lg_verts G)"
    using inv len ik by (auto simp: graph_inv_def)
  have g: "good_edge M I (I ! i, I ! k, l)"
    unfolding good_edge_def using ik lab by (intro exI[of _ i] exI[of _ k]) simp
  show ?thesis
    using inv g by (auto simp: graph_inv_def add_edge_verts[OF vi vk] add_edge_edges[OF vi vk])
qed

lemma graph_step_cases:
  assumes "edge_label v = Some l"
  shows "graph_step I (i, j, v) G = add_edge (I ! i) (I ! (i + 1 + j)) l G"
  using assms by (auto simp: graph_step_def edge_label_def split: if_splits)

lemma graph_step_none:
  assumes "edge_label v = None"
  shows "graph_step I (i, j, v) G = G"
  using assms by (auto simp: graph_step_def edge_label_def split: if_splits)

lemma graph_step_props:
  assumes inv: "graph_inv M I G" and len: "length I = length M" and sq: "is_square M"
    and t: "t \<in> set (upper_triples M)"
  shows "graph_inv M I (graph_step I t G)"
    and "\<And>a b. covered G a b \<Longrightarrow> covered (graph_step I t G) a b"
    and "edge_label (snd (snd t)) \<noteq> None \<Longrightarrow>
           covered (graph_step I t G) (I ! fst t) (I ! (fst t + 1 + fst (snd t)))"
proof -
  from t obtain i j where i: "i < length M" and j: "i + 1 + j < length (M ! i)"
    and te: "t = (i, j, M ! i ! (i + 1 + j))"
    unfolding upper_triples_set by blast
  have k: "i + 1 + j < length M" using j i sq by (simp add: sq_nth)
  have ik: "i < i + 1 + j" by simp
  have vi: "I ! i \<in> set (lg_verts G)" and vk: "I ! (i + 1 + j) \<in> set (lg_verts G)"
    using inv len i k by (auto simp: graph_inv_def)
  show "graph_inv M I (graph_step I t G)"
  proof (cases "edge_label (M ! i ! (i + 1 + j))")
    case None
    then show ?thesis using inv by (simp add: te graph_step_none)
  next
    case (Some l)
    have "graph_step I t G = add_edge (I ! i) (I ! (i + 1 + j)) l G"
      unfolding te by (rule graph_step_cases[OF Some])
    then show ?thesis
      using graph_inv_add_edge[OF inv len ik k Some] by simp
  qed
  show "\<And>a b. covered G a b \<Longrightarrow> covered (graph_step I t G) a b"
  proof -
    fix a b assume c: "covered G a b"
    show "covered (graph_step I t G) a b"
    proof (cases "edge_label (M ! i ! (i + 1 + j))")
      case None
      then show ?thesis using c by (simp add: te graph_step_none)
    next
      case (Some l)
      have "graph_step I t G = add_edge (I ! i) (I ! (i + 1 + j)) l G"
        unfolding te by (rule graph_step_cases[OF Some])
      then show ?thesis
        using covered_add_edge_other[OF vi vk c, of l] by simp
    qed
  qed
  show "edge_label (snd (snd t)) \<noteq> None \<Longrightarrow>
           covered (graph_step I t G) (I ! fst t) (I ! (fst t + 1 + fst (snd t)))"
  proof -
    assume "edge_label (snd (snd t)) \<noteq> None"
    then obtain l where l: "edge_label (M ! i ! (i + 1 + j)) = Some l" by (auto simp: te)
    have "graph_step I t G = add_edge (I ! i) (I ! (i + 1 + j)) l G"
      unfolding te by (rule graph_step_cases[OF l])
    then show ?thesis
      using covered_add_edge_same[OF vi vk, of l] by (simp add: te)
  qed
qed

lemma graph_fold_props:
  assumes len: "length I = length M" and sq: "is_square M"
    and inv: "graph_inv M I G" and ts: "set ts \<subseteq> set (upper_triples M)"
  shows "graph_inv M I (fold (graph_step I) ts G) \<and>
         (\<forall>a b. covered G a b \<longrightarrow> covered (fold (graph_step I) ts G) a b) \<and>
         (\<forall>t\<in>set ts. edge_label (snd (snd t)) \<noteq> None \<longrightarrow>
            covered (fold (graph_step I) ts G) (I ! fst t) (I ! (fst t + 1 + fst (snd t))))"
  using inv ts
proof (induction ts arbitrary: G)
  case Nil
  then show ?case by simp
next
  case (Cons t ts)
  have t: "t \<in> set (upper_triples M)" and ts: "set ts \<subseteq> set (upper_triples M)"
    using Cons.prems(2) by simp_all
  note p = graph_step_props[OF Cons.prems(1) len sq t]
  note ih = Cons.IH[OF p(1) ts]
  show ?case
  proof (intro conjI allI impI ballI)
    show "graph_inv M I (fold (graph_step I) (t # ts) G)" using ih by simp
  next
    fix a b assume "covered G a b"
    then have "covered (graph_step I t G) a b" by (rule p(2))
    then show "covered (fold (graph_step I) (t # ts) G) a b" using ih by simp
  next
    fix s assume s: "s \<in> set (t # ts)" and e: "edge_label (snd (snd s)) \<noteq> None"
    show "covered (fold (graph_step I) (t # ts) G) (I ! fst s) (I ! (fst s + 1 + fst (snd s)))"
    proof (cases "s = t")
      case True
      then have "covered (graph_step I t G) (I ! fst s) (I ! (fst s + 1 + fst (snd s)))"
        using p(3) e by simp
      then show ?thesis using ih by simp
    next
      case False
      then have "s \<in> set ts" using s by simp
      then show ?thesis using ih e by simp
    qed
  qed
qed



lemma set_entry_nth:
  assumes "dims n d" "i < n" "j < n" "a < n"
  shows "set_entry d i j m ! a ! b = (if a = i \<and> b = j then m else d ! a ! b)"
  using assms by (auto simp: set_entry_def dims_def nth_list_update)

lemma set_entry_dims:
  assumes "dims n d" "i < n"
  shows "dims n (set_entry d i j m)"
  using assms by (auto simp: set_entry_def dims_def nth_list_update)

lemma base_fold:
  assumes "k \<le> n"
  shows "dims n (fold (\<lambda>i d. set_entry d i i 1) [0..<k] (replicate n (replicate n 2))) \<and>
         (\<forall>a<n. \<forall>b<n. fold (\<lambda>i d. set_entry d i i 1) [0..<k] (replicate n (replicate n 2)) ! a ! b
                      = (if a = b \<and> a < k then 1 else 2))"
  using assms
proof (induction k)
  case 0
  then show ?case by (simp add: dims_def)
next
  case (Suc k)
  let ?d = "fold (\<lambda>i d. set_entry d i i 1) [0..<k] (replicate n (replicate n 2))"
  have k: "k < n" using Suc.prems by simp
  have ih: "dims n ?d" "\<And>a b. a < n \<Longrightarrow> b < n \<Longrightarrow> ?d ! a ! b = (if a = b \<and> a < k then 1 else 2)"
    using Suc.IH k by simp_all
  have e: "fold (\<lambda>i d. set_entry d i i 1) [0..<Suc k] (replicate n (replicate n 2))
             = set_entry ?d k k 1" by simp
  show ?case unfolding e
  proof (intro conjI allI impI)
    show "dims n (set_entry ?d k k 1)" using ih(1) k by (rule set_entry_dims)
  next
    fix a b assume a: "a < n" and b: "b < n"
    show "set_entry ?d k k 1 ! a ! b = (if a = b \<and> a < Suc k then 1 else 2)"
      using set_entry_nth[OF ih(1) k k a, of 1 b] ih(2)[OF a b] by (auto simp: less_Suc_eq)
  qed
qed

lemma base_matrix_props:
  "dims n (base_matrix n)"
  "a < n \<Longrightarrow> b < n \<Longrightarrow> base_matrix n ! a ! b = (if a = b then 1 else 2)"
  using base_fold[of n n] by (simp_all add: base_matrix_def)

lemma index_of_nth:
  assumes "distinct I" "i < length I"
  shows "index_of I (I ! i) = Inr i"
  using assms
proof (induction I arbitrary: i)
  case Nil
  then show ?case by simp
next
  case (Cons x I)
  show ?case
  proof (cases i)
    case 0
    then show ?thesis by simp
  next
    case (Suc k)
    then have k: "k < length I" using Cons.prems(2) by simp
    have "I ! k \<noteq> x" using Cons.prems(1) k by auto
    then show ?thesis using Cons.IH[of k] Cons.prems(1) k Suc by simp
  qed
qed

lemma graph_label_edge_label:
  "edge_label v = Some l \<Longrightarrow> graph_label l = Inr v"
  by (auto simp: edge_label_def split: if_splits)

lemma same_ends_index:
  assumes "distinct I" "i < length I" "k < length I" "a < length I" "b < length I"
  shows "same_ends (I ! a) (I ! b) (I ! i, I ! k, l) \<longleftrightarrow> (a = i \<and> b = k) \<or> (a = k \<and> b = i)"
  using assms by (auto simp: same_ends_def nth_eq_iff_index_eq)

lemma fill_edges_result:
  assumes v: "valid_coxeter M" and len: "length I = length M" and dI: "distinct I"
    and good: "\<forall>e\<in>set es. good_edge M I e" and d: "dims (length M) data"
  shows "\<exists>D. fill_edges I es data = Inr D \<and> dims (length M) D \<and>
           (\<forall>a<length M. \<forall>b<length M.
              D ! a ! b = (if \<exists>e\<in>set es. same_ends (I ! a) (I ! b) e then M ! a ! b
                           else data ! a ! b))"
  using good d
proof (induction es arbitrary: data)
  case Nil
  then show ?case by simp
next
  case (Cons e es)
  let ?n = "length M"
  from Cons.prems(1) obtain i k where ik: "i < k" "k < ?n"
    and e1: "fst e = I ! i" and e2: "fst (snd e) = I ! k"
    and lab: "edge_label (M ! i ! k) = Some (snd (snd e))"
    by (auto simp: good_edge_def)
  have i: "i < ?n" using ik by simp
  let ?m = "M ! i ! k"
  let ?data' = "set_entry (set_entry data k i ?m) i k ?m"
  have d1: "dims ?n (set_entry data k i ?m)" using Cons.prems(2) ik(2) by (rule set_entry_dims)
  have d': "dims ?n ?data'" using d1 i by (rule set_entry_dims)
  have step: "fill_edges I (e # es) data = fill_edges I es ?data'"
    using graph_label_edge_label[OF lab] index_of_nth[OF dI, of i] index_of_nth[OF dI, of k]
      i ik(2) len e1 e2 by simp
  have good': "\<forall>e\<in>set es. good_edge M I e" using Cons.prems(1) by simp
  from Cons.IH[OF good' d'] obtain D where D: "fill_edges I es ?data' = Inr D" "dims ?n D"
    and ent: "\<And>a b. a < ?n \<Longrightarrow> b < ?n \<Longrightarrow>
       D ! a ! b = (if \<exists>e\<in>set es. same_ends (I ! a) (I ! b) e then M ! a ! b else ?data' ! a ! b)"
    by blast
  have sym: "M ! k ! i = ?m" using valid_sym[OF v ik(2) i] .
  have "\<And>a b. a < ?n \<Longrightarrow> b < ?n \<Longrightarrow>
       D ! a ! b = (if \<exists>e'\<in>set (e # es). same_ends (I ! a) (I ! b) e' then M ! a ! b
                    else data ! a ! b)"
  proof -
    fix a b assume a: "a < ?n" and b: "b < ?n"
    have se: "same_ends (I ! a) (I ! b) e \<longleftrightarrow> (a = i \<and> b = k) \<or> (a = k \<and> b = i)"
      unfolding same_ends_def e1 e2
      using dI i ik(2) a b len by (auto simp: nth_eq_iff_index_eq)
    have dv: "?data' ! a ! b = (if (a = i \<and> b = k) \<or> (a = k \<and> b = i) then ?m else data ! a ! b)"
    proof -
      have 1: "?data' ! a ! b = (if a = i \<and> b = k then ?m else set_entry data k i ?m ! a ! b)"
        using d1 i ik(2) a by (rule set_entry_nth)
      have 2: "set_entry data k i ?m ! a ! b = (if a = k \<and> b = i then ?m else data ! a ! b)"
        using Cons.prems(2) ik(2) i a by (rule set_entry_nth)
      show ?thesis
      proof (cases "a = i \<and> b = k")
        case True
        then show ?thesis using 1 by (simp only: if_True simp_thms)
      next
        case False
        show ?thesis
        proof (cases "a = k \<and> b = i")
          case True
          then show ?thesis using 1 2 False by (simp only: if_True if_False simp_thms)
        next
          case F2: False
          then show ?thesis using 1 2 False by (simp only: if_False simp_thms)
        qed
      qed
    qed
    show "D ! a ! b = (if \<exists>e'\<in>set (e # es). same_ends (I ! a) (I ! b) e' then M ! a ! b
                    else data ! a ! b)"
    proof (cases "(a = i \<and> b = k) \<or> (a = k \<and> b = i)")
      case True
      have m1: "M ! a ! b = ?m" using True sym by auto
      have m2: "?data' ! a ! b = ?m" using dv True by (simp only: if_True)
      have c: "\<exists>e'\<in>set (e # es). same_ends (I ! a) (I ! b) e'" using se True by simp
      have "D ! a ! b = M ! a ! b"
      proof (cases "\<exists>e\<in>set es. same_ends (I ! a) (I ! b) e")
        case True
        then show ?thesis using ent[OF a b] by (simp only: if_True)
      next
        case False
        then have "D ! a ! b = ?data' ! a ! b" using ent[OF a b] by (simp only: if_False)
        then show ?thesis using m1 m2 by (simp only:)
      qed
      then show ?thesis using c by (simp only: if_True)
    next
      case False
      have m2: "?data' ! a ! b = data ! a ! b" using dv False by (simp only: if_False)
      have ne: "\<not> same_ends (I ! a) (I ! b) e" using se False by (simp only: simp_thms)
      show ?thesis
      proof (cases "\<exists>e\<in>set es. same_ends (I ! a) (I ! b) e")
        case True
        then have c: "\<exists>e'\<in>set (e # es). same_ends (I ! a) (I ! b) e'" by auto
        have "D ! a ! b = M ! a ! b" using ent[OF a b] True by (simp only: if_True)
        then show ?thesis using c by (simp only: if_True)
      next
        case F: False
        then have c: "\<not> (\<exists>e'\<in>set (e # es). same_ends (I ! a) (I ! b) e')" using ne by auto
        have "D ! a ! b = ?data' ! a ! b" using ent[OF a b] F by (simp only: if_False)
        then have "D ! a ! b = data ! a ! b" using m2 by (simp only:)
        then show ?thesis using c by (simp only: if_False)
      qed
    qed
  qed
  then show ?case using step D by simp
qed



lemma same_ends_swap: "same_ends u v e \<longleftrightarrow> same_ends v u e"
  by (auto simp: same_ends_def)

lemma good_edge_ordered:
  assumes "good_edge M I e" and "length I = length M" and "sorted I" and "distinct I"
  shows "fst e < fst (snd e)"
proof -
  from assms(1) obtain i k where ik: "i < k" "k < length M"
    and e: "fst e = I ! i" "fst (snd e) = I ! k"
    by (auto simp: good_edge_def)
  have "I ! i \<le> I ! k" using assms(2,3) ik by (intro sorted_nth_mono) simp_all
  moreover have "I ! i \<noteq> I ! k" using assms(2,4) ik by (simp add: nth_eq_iff_index_eq)
  ultimately show ?thesis using e by simp
qed

lemma edges_of_good_graph:
  assumes "graph_inv M I G" and "length I = length M" and "sorted I" and "distinct I"
  shows "set (edges G) = set (lg_edges G)"
proof -
  have "map (\<lambda>(u, v, l). (min u v, max u v, l)) (lg_edges G) = lg_edges G"
  proof (rule map_idI)
    fix e assume "e \<in> set (lg_edges G)"
    then have "good_edge M I e" using assms(1) by (simp add: graph_inv_def)
    then have "fst e < fst (snd e)" using assms(2,3,4) by (rule good_edge_ordered)
    then show "(case e of (u, v, l) \<Rightarrow> (min u v, max u v, l)) = e"
      by (cases e) auto
  qed
  then show ?thesis by (simp add: edges_def)
qed

lemma coxeter_graph_props:
  assumes v: "valid_coxeter M" and len: "length I = length M" and dI: "distinct I"
  shows "graph_inv M I (coxeter_graph (init M I))"
    and "\<And>i k. i < k \<Longrightarrow> k < length M \<Longrightarrow> edge_label (M ! i ! k) \<noteq> None \<Longrightarrow>
           covered (coxeter_graph (init M I)) (I ! i) (I ! k)"
proof -
  let ?G0 = "\<lparr>lg_verts = I, lg_edges = []\<rparr>"
  have sq: "is_square M" using v by (rule valid_square)
  have G: "coxeter_graph (init M I) = fold (graph_step I) (upper_triples M) ?G0"
    by (simp add: coxeter_graph_def init_def add_vertices_empty[OF dI])
  have inv0: "graph_inv M I ?G0" by (simp add: graph_inv_def)
  note p = graph_fold_props[OF len sq inv0 subset_refl]
  show "graph_inv M I (coxeter_graph (init M I))" unfolding G using p by (rule conjunct1)
  show "\<And>i k. i < k \<Longrightarrow> k < length M \<Longrightarrow> edge_label (M ! i ! k) \<noteq> None \<Longrightarrow>
           covered (coxeter_graph (init M I)) (I ! i) (I ! k)"
  proof -
    fix i k assume ik: "i < k" "k < length M" and e: "edge_label (M ! i ! k) \<noteq> None"
    let ?j = "k - i - 1"
    have k: "i + 1 + ?j = k" using ik by simp
    have "i < length M \<and> i + 1 + ?j < length (M ! i)"
      using ik sq k by (simp add: sq_nth)
    then have t: "(i, ?j, M ! i ! (i + 1 + ?j)) \<in> set (upper_triples M)"
      unfolding upper_triples_set by blast
    have "\<forall>t\<in>set (upper_triples M). edge_label (snd (snd t)) \<noteq> None \<longrightarrow>
            covered (fold (graph_step I) (upper_triples M) ?G0)
              (I ! fst t) (I ! (fst t + 1 + fst (snd t)))"
      using p by blast
    from this[rule_format, OF t] e k
    show "covered (coxeter_graph (init M I)) (I ! i) (I ! k)" unfolding G by simp
  qed
qed

lemma coxeter_graph_init:
  "coxeter_graph (init M I) = fold (graph_step I) (upper_triples M) (add_vertices I empty_graph)"
  by (simp add: coxeter_graph_def init_def)

lemma edge_label_other:
  assumes "v = - 1 \<or> 2 \<le> v" and "v \<noteq> 2"
  shows "edge_label v \<noteq> None"
  using assms by (auto simp: edge_label_def)

lemma round_trip_verts:
  fixes I :: "('a::linorder) list"
  assumes "graph_inv M I G" and "sorted I"
  shows "vertices G = I"
proof -
  have "lg_verts G = I" using assms(1) by (simp add: graph_inv_def)
  then show ?thesis using assms(2) by (simp add: vertices_def sorted_sort_id)
qed

lemma round_trip_entry:
  fixes I :: "('a::linorder) list"
  assumes v: "valid_coxeter M" and len: "length I = length M" and dI: "distinct I"
    and a: "a < length M" and b: "b < length M"
    and nc: "\<not> (\<exists>e\<in>set (lg_edges (coxeter_graph (init M I))). same_ends (I ! a) (I ! b) e)"
  shows "M ! a ! b = (if a = b then 1 else 2)"
proof (cases "a = b")
  case True
  then show ?thesis using valid_diag[OF v a] by simp
next
  case ne: False
  let ?G = "coxeter_graph (init M I)"
  note gp = coxeter_graph_props[OF v len dI]
  have "M ! a ! b = 2"
  proof (rule ccontr)
    assume n2: "M ! a ! b \<noteq> 2"
    have lab: "edge_label (M ! a ! b) \<noteq> None"
      using valid_off[OF v a b ne] n2 by (rule edge_label_other)
    have "covered ?G (I ! a) (I ! b)"
    proof (cases "a < b")
      case True
      show ?thesis using True b lab by (rule gp(2))
    next
      case nlt: False
      then have ba: "b < a" using ne by simp
      have "M ! b ! a = M ! a ! b" using valid_sym[OF v b a] .
      then have l2: "edge_label (M ! b ! a) \<noteq> None" using lab by simp
      have "covered ?G (I ! b) (I ! a)" using ba a l2 by (rule gp(2))
      then obtain e where "e \<in> set (lg_edges ?G)" "same_ends (I ! b) (I ! a) e"
        unfolding covered_def by blast
      then have "e \<in> set (lg_edges ?G)" "same_ends (I ! a) (I ! b) e"
        using same_ends_swap[of "I ! b" "I ! a" e] by simp_all
      then show ?thesis unfolding covered_def by blast
    qed
    then obtain e where "e \<in> set (lg_edges ?G)" "same_ends (I ! a) (I ! b) e"
      unfolding covered_def by blast
    then show False using nc by blast
  qed
  then show ?thesis using ne by simp
qed

text \<open>
  Claim C6 as stated, for any index set, fails: with the index set \<open>(1, 0, 2)\<close> the graph
  lists its vertices in increasing order, and the matrix read back from the graph of
  \<open>[[1,3,2],[3,1,4],[2,4,1]]\<close> is \<open>[[1,3,4],[3,1,2],[4,2,1]]\<close>.
\<close>

theorem graph_round_trip_unsorted_fails:
  "valid_coxeter [[1, 3, 2], [3, 1, 4], [2, 4, 1]] \<and>
   classcall_graph (coxeter_graph (init [[1, 3, 2], [3, 1, 4], [2, 4, 1]] [1, 0, 2 :: nat])) None
     = Inr ([[1, 3, 4], [3, 1, 2], [4, 2, 1]], [0, 1, 2]) \<and>
   [[1, 3, 4], [3, 1, 2], [4, 2, 1]] \<noteq> [[1, 3, 2], [3, 1, 4], [2, 4, 1 :: int]]"
proof -
  have 1: "valid_coxeter [[1, 3, 2], [3, 1, 4], [2, 4, 1]]" by code_simp
  have 2: "classcall_graph (coxeter_graph (init [[1, 3, 2], [3, 1, 4], [2, 4, 1]] [1, 0, 2 :: nat])) None
     = Inr ([[1, 3, 4], [3, 1, 2], [4, 2, 1]], [0, 1, 2])"
    unfolding coxeter_graph_init by code_simp
  have 3: "[[1, 3, 4], [3, 1, 2], [4, 2, 1]] \<noteq> [[1, 3, 2], [3, 1, 4], [2, 4, 1 :: int]]" by simp
  show ?thesis using 1 2 3 by (intro conjI)
qed

text \<open>
  Claim C6, amended. For every valid Coxeter matrix \<open>M\<close> and every index set of its size
  listed in strictly increasing order (as the default \<open>0, \<dots>, n - 1\<close> is), constructing the
  group from \<open>M\<close>, reading back its diagram graph with \<^verbatim>\<open>coxeter_graph()\<close> and normalising
  that graph for a new construction yields the matrix \<open>M\<close> and the index set again.
\<close>

theorem graph_round_trip:
  fixes I :: "('a::linorder) list"
  assumes v: "valid_coxeter M" and len: "length I = length M"
    and sI: "sorted I" and dI: "distinct I"
  shows "classcall_graph (coxeter_graph (init M I)) None = Inr (M, I)"
proof -
  let ?G = "coxeter_graph (init M I)" and ?n = "length M"
  have sq: "is_square M" using v by (rule valid_square)
  note gp = coxeter_graph_props[OF v len dI]
  have verts: "vertices ?G = I" using gp(1) sI by (rule round_trip_verts)
  have es: "set (edges ?G) = set (lg_edges ?G)"
    using gp(1) len sI dI by (rule edges_of_good_graph)
  have good: "\<forall>e\<in>set (edges ?G). good_edge M I e"
    using gp(1) unfolding es graph_inv_def by (rule conjunct2)
  from fill_edges_result[OF v len dI good base_matrix_props(1)]
  obtain D where D1: "fill_edges I (edges ?G) (base_matrix ?n) = Inr D" and D2: "dims ?n D"
    and ent: "\<forall>a<?n. \<forall>b<?n.
       D ! a ! b = (if \<exists>e\<in>set (edges ?G). same_ends (I ! a) (I ! b) e then M ! a ! b
                    else base_matrix ?n ! a ! b)"
    by blast
  have eq: "\<And>a b. a < ?n \<Longrightarrow> b < ?n \<Longrightarrow> D ! a ! b = M ! a ! b"
  proof -
    fix a b assume a: "a < ?n" and b: "b < ?n"
    have e: "D ! a ! b = (if \<exists>e\<in>set (edges ?G). same_ends (I ! a) (I ! b) e then M ! a ! b
                    else base_matrix ?n ! a ! b)"
      using ent a b by blast
    show "D ! a ! b = M ! a ! b"
    proof (cases "\<exists>e\<in>set (edges ?G). same_ends (I ! a) (I ! b) e")
      case True
      then show ?thesis using e by (simp only: if_True)
    next
      case False
      then have Db: "D ! a ! b = base_matrix ?n ! a ! b" using e by (simp only: if_False)
      have nc: "\<not> (\<exists>e\<in>set (lg_edges ?G). same_ends (I ! a) (I ! b) e)"
        using False unfolding es .
      have "M ! a ! b = (if a = b then 1 else 2)"
        using v len dI a b nc by (rule round_trip_entry)
      then show ?thesis using Db base_matrix_props(2)[OF a b] by (simp only:)
    qed
  qed
  have DM: "D = M"
  proof (rule nth_equalityI)
    show "length D = length M" using D2 by (simp add: dims_def)
  next
    fix a assume "a < length D"
    then have a: "a < ?n" using D2 by (simp add: dims_def)
    show "D ! a = M ! a"
    proof (rule nth_equalityI)
      show "length (D ! a) = length (M ! a)" using D2 a sq by (simp add: dims_def sq_nth)
    next
      fix b assume "b < length (D ! a)"
      then have b: "b < ?n" using D2 a by (simp add: dims_def)
      show "D ! a ! b = M ! a ! b" using a b by (rule eq)
    qed
  qed
  have f: "fill_edges I (edges ?G) (base_matrix (length I)) = Inr M"
    unfolding len using D1 DM by (simp only:)
  show ?thesis
    unfolding classcall_graph_def Let_def verts f by simp
qed

theorem graph_round_trip_witness:
  "valid_coxeter [[1, 3, 2], [3, 1, - 1], [2, - 1, 1]] \<and>
   sorted [1, 2, 3 :: nat] \<and> distinct [1, 2, 3 :: nat] \<and>
   classcall_graph (coxeter_graph (init [[1, 3, 2], [3, 1, - 1], [2, - 1, 1]] [1, 2, 3 :: nat])) None
     = Inr ([[1, 3, 2], [3, 1, - 1], [2, - 1, 1]], [1, 2, 3])"
proof -
  have v: "valid_coxeter [[1, 3, 2], [3, 1, - 1], [2, - 1, 1]]" by code_simp
  have l: "length [1, 2, 3 :: nat] = length [[1, 3, 2], [3, 1, - 1], [2, - 1, 1 :: int]]" by simp
  have s: "sorted [1, 2, 3 :: nat]" by simp
  have d: "distinct [1, 2, 3 :: nat]" by simp
  show ?thesis using graph_round_trip[OF v l s d] v s d by (intro conjI)
qed


end
